theory Spec2Isabelle
  imports Main "HOL-Library.Word" "HOL-Library.List_Lexorder" "HOL-Library.Sublist" "HOL-Library.AList"
begin

unbundle bit_operations_syntax

section \<open>Python values\<close>

text \<open>
  A Python \<open>str\<close> is a sequence of Unicode code points; comparison of two strings is
  lexicographic on the code points, which is the order \<open>HOL-Library.List_Lexorder\<close> puts on
  \<open>nat list\<close>. A \<open>bytes\<close> object is a list of octets. Python integers are unbounded.
\<close>

type_synonym pystr = "nat list"
type_synonym byte = "8 word"

definition lit :: "string \<Rightarrow> pystr" where
  "lit s = map of_char s"

datatype error =
    FileNotFoundError | ParseError | JSONDecodeError | OSError
  | KeyError | AttributeError | TypeError | UnicodeEncodeError

text \<open>
  \<open>str.encode('utf-8')\<close>: one to four octets per code point; a surrogate code point
  (\<open>0xD800..0xDFFF\<close>) raises \<open>UnicodeEncodeError\<close>. A Python string holds no code point
  above \<open>0x10FFFF\<close>; the model sends such a number to the same error.
\<close>

definition utf8_char :: "nat \<Rightarrow> error + byte list" where
  "utf8_char c =
    (if c < 0x80 then Inr [of_nat c]
     else if c < 0x800 then Inr [of_nat (0xC0 + c div 64), of_nat (0x80 + c mod 64)]
     else if 0xD800 \<le> c \<and> c \<le> 0xDFFF then Inl UnicodeEncodeError
     else if c < 0x10000 then
       Inr [of_nat (0xE0 + c div 4096), of_nat (0x80 + (c div 64) mod 64), of_nat (0x80 + c mod 64)]
     else if c < 0x110000 then
       Inr [of_nat (0xF0 + c div 262144), of_nat (0x80 + (c div 4096) mod 64),
            of_nat (0x80 + (c div 64) mod 64), of_nat (0x80 + c mod 64)]
     else Inl UnicodeEncodeError)"

fun encode_utf8 :: "pystr \<Rightarrow> error + byte list" where
  "encode_utf8 [] = Inr []"
| "encode_utf8 (c # cs) =
    (case utf8_char c of
       Inl e \<Rightarrow> Inl e
     | Inr bs \<Rightarrow> (case encode_utf8 cs of Inl e \<Rightarrow> Inl e | Inr r \<Rightarrow> Inr (bs @ r)))"

definition is_scalar :: "nat \<Rightarrow> bool" where
  "is_scalar c \<longleftrightarrow> c < 0xD800 \<or> (0xDFFF < c \<and> c < 0x110000)"

text \<open>\<open>str(n)\<close> and \<open>hex(n)\<close> of a Python integer.\<close>

fun str_nat :: "nat \<Rightarrow> pystr" where
  "str_nat n = (if n < 10 then [48 + n] else str_nat (n div 10) @ [48 + n mod 10])"

declare str_nat.simps [simp del]

definition str_int :: "int \<Rightarrow> pystr" where
  "str_int i = (if i < 0 then 45 # str_nat (nat (- i)) else str_nat (nat i))"

definition hex_digit :: "nat \<Rightarrow> nat" where
  "hex_digit d = (if d < 10 then 48 + d else 87 + d)"

fun hex_nat :: "nat \<Rightarrow> pystr" where
  "hex_nat n = (if n < 16 then [hex_digit n] else hex_nat (n div 16) @ [hex_digit (n mod 16)])"

declare hex_nat.simps [simp del]

definition hex_py :: "int \<Rightarrow> pystr" where
  "hex_py i = (if i < 0 then lit ''-0x'' @ hex_nat (nat (- i)) else lit ''0x'' @ hex_nat (nat i))"

text \<open>
  \<open>str.replace(old, new)\<close> for a non-empty \<open>old\<close> (every call site passes one): the
  non-overlapping occurrences, found from the left, are replaced.
\<close>

function replace_py :: "pystr \<Rightarrow> pystr \<Rightarrow> pystr \<Rightarrow> pystr" where
  "replace_py old new [] = []"
| "replace_py old new (c # cs) =
    (if old \<noteq> [] \<and> prefix old (c # cs)
     then new @ replace_py old new (drop (length old) (c # cs))
     else c # replace_py old new cs)"
  by pat_completeness auto

termination
  by (relation "measure (\<lambda>(old, new, s). length s)") (auto simp: neq_Nil_conv)

text \<open>\<open>str.strip()\<close> removes leading and trailing characters for which \<open>str.isspace\<close> holds.\<close>

definition is_space :: "nat \<Rightarrow> bool" where
  "is_space c \<longleftrightarrow>
     (9 \<le> c \<and> c \<le> 13) \<or> (28 \<le> c \<and> c \<le> 32) \<or> c = 0x85 \<or> c = 0xA0 \<or> c = 0x1680
     \<or> (0x2000 \<le> c \<and> c \<le> 0x200A) \<or> c = 0x2028 \<or> c = 0x2029 \<or> c = 0x202F
     \<or> c = 0x205F \<or> c = 0x3000"

definition strip_py :: "pystr \<Rightarrow> pystr" where
  "strip_py s = rev (dropWhile is_space (rev (dropWhile is_space s)))"

text \<open>
  A \<open>dict\<close> keeps its keys in insertion order and an assignment to a present key replaces
  the value in place: \<open>AList.update\<close> on an association list.
\<close>

definition sorted_py :: "('a::linorder) list \<Rightarrow> 'a list" where
  "sorted_py ks = sort ks"

section \<open>The hash engine of \<open>generate_hashes.py\<close>\<close>

text \<open>
  \<open>zlib.crc32\<close> as zlib computes it: a table of 256 entries, each the result of eight
  shift steps with the reflected polynomial, consulted once per octet; the register starts
  at all ones and is complemented at the end.
\<close>

definition crc_poly :: "32 word" where
  "crc_poly = 0xEDB88320"

definition crc_shift :: "32 word \<Rightarrow> 32 word" where
  "crc_shift c = (if bit c 0 then drop_bit 1 c XOR crc_poly else drop_bit 1 c)"

definition crc_table_entry :: "nat \<Rightarrow> 32 word" where
  "crc_table_entry n = (crc_shift ^^ 8) (of_nat n)"

definition crc_table :: "32 word list" where
  "crc_table = map crc_table_entry [0..<256]"

definition crc_update :: "byte \<Rightarrow> 32 word \<Rightarrow> 32 word" where
  "crc_update b c = crc_table ! unat ((c XOR ucast b) AND 0xFF) XOR drop_bit 8 c"

fun crc_loop :: "byte list \<Rightarrow> 32 word \<Rightarrow> 32 word" where
  "crc_loop [] c = c"
| "crc_loop (b # bs) c = crc_loop bs (crc_update b c)"

definition zlib_crc32 :: "byte list \<Rightarrow> 32 word" where
  "zlib_crc32 bs = crc_loop bs 0xFFFFFFFF XOR 0xFFFFFFFF"

text \<open>
  The specification's CRC-32/IEEE, stated bit by bit: reflected polynomial \<open>0xEDB88320\<close>,
  initial register \<open>0xFFFFFFFF\<close>, each octet is added into the low end of the register and
  the register is shifted eight times, final complement.
\<close>

fun crc_bits :: "byte list \<Rightarrow> 32 word \<Rightarrow> 32 word" where
  "crc_bits [] c = c"
| "crc_bits (b # bs) c = crc_bits bs ((crc_shift ^^ 8) (c XOR ucast b))"

definition crc32_ieee :: "byte list \<Rightarrow> 32 word" where
  "crc32_ieee bs = crc_bits bs 0xFFFFFFFF XOR 0xFFFFFFFF"

text \<open>Lines 74, 77 and 80 of \<open>generate_hashes.py\<close>.\<close>

definition unsigned_hash :: "pystr \<Rightarrow> error + int" where
  "unsigned_hash prefab_name =
    (case encode_utf8 prefab_name of
       Inl e \<Rightarrow> Inl e
     | Inr bs \<Rightarrow> Inr (uint (zlib_crc32 bs)))"

definition signed_hash :: "int \<Rightarrow> int" where
  "signed_hash u = (u XOR 0x80000000) - 0x80000000"

definition hex_hash :: "int \<Rightarrow> pystr" where
  "hex_hash u = hex_py u"

section \<open>The text emitter of \<open>generate_hashes.py\<close>\<close>

text \<open>
  A \<open>RecordThing\<close> element of the parsed document. \<open>findtext('./Key')\<close> is \<open>None\<close>
  when the element has no \<open>Key\<close> child and the (possibly empty) text of the child
  otherwise; \<open>findtext('./Value', '')\<close> is the empty string when there is no \<open>Value\<close> child.
\<close>

record record_thing =
  Key :: "pystr option"
  Value :: "pystr option"

definition findtext_default :: "pystr option \<Rightarrow> pystr \<Rightarrow> pystr" where
  "findtext_default el dflt = (case el of None \<Rightarrow> dflt | Some t \<Rightarrow> t)"

text \<open>Lines 66-67: the loop that fills the dictionary \<open>d\<close>.\<close>

fun load_records :: "record_thing list \<Rightarrow> (pystr option \<times> pystr) list
    \<Rightarrow> (pystr option \<times> pystr) list" where
  "load_records [] d = d"
| "load_records (t # ts) d =
     load_records ts (AList.update (Key t) (findtext_default (Value t) []) d)"

text \<open>
  \<open>sorted(d.keys())\<close>: the keys are strings, or \<open>None\<close> for a record without \<open>Key\<close>.
  Sorting a list of two or more keys that holds \<open>None\<close> compares \<open>None\<close> with a string and
  raises \<open>TypeError\<close>; a list of one key is returned as it is.
\<close>

definition sorted_keys :: "pystr option list \<Rightarrow> error + pystr option list" where
  "sorted_keys ks =
    (if None \<in> set ks then (if length ks < 2 then Inr ks else Inl TypeError)
     else Inr (map Some (sorted_py (map the ks))))"

text \<open>The line of line 86; 34 is the double quote, 32 the space, 10 the newline.\<close>

definition text_line :: "pystr \<Rightarrow> int \<Rightarrow> pystr \<Rightarrow> pystr \<Rightarrow> pystr" where
  "text_line prefab_name shash hx display_name =
     [34] @ prefab_name @ [34, 32] @ str_int shash @ [32] @ hx @ [32, 34]
       @ display_name @ [34, 10]"

text \<open>
  Lines 72-86: the loop over the sorted keys, with the lines written so far. A \<open>None\<close> key
  has no \<open>encode\<close>; a key or a line with a surrogate cannot be encoded; the lines written
  before the failure stay in the file.
\<close>

fun emit_lines :: "(pystr option \<times> pystr) list \<Rightarrow> pystr option list \<Rightarrow> pystr list
    \<Rightarrow> error option \<times> pystr list" where
  "emit_lines d [] out = (None, out)"
| "emit_lines d (k # ks) out =
    (case k of
       None \<Rightarrow> (Some AttributeError, out)
     | Some prefab_name \<Rightarrow>
        (case unsigned_hash prefab_name of
           Inl e \<Rightarrow> (Some e, out)
         | Inr u \<Rightarrow>
            (case map_of d k of
               None \<Rightarrow> (Some KeyError, out)
             | Some display_name \<Rightarrow>
                (let line = text_line prefab_name (signed_hash u) (hex_hash u) display_name
                 in case encode_utf8 line of
                      Inl e \<Rightarrow> (Some e, out)
                    | Inr _ \<Rightarrow> emit_lines d ks (out @ [line])))))"

text \<open>The line the loop writes for a key when nothing raises.\<close>

definition written_line :: "(pystr option \<times> pystr) list \<Rightarrow> pystr \<Rightarrow> pystr" where
  "written_line d prefab_name =
    (case unsigned_hash prefab_name of
       Inl _ \<Rightarrow> []
     | Inr u \<Rightarrow>
        text_line prefab_name (signed_hash u) (hex_hash u)
          (case map_of d (Some prefab_name) of None \<Rightarrow> [] | Some v \<Rightarrow> v))"

text \<open>
  The run from line 57 on (the prompt that may copy the game's file into the input
  directory comes before and touches no output). The file system maps a path to the text
  of the file; \<open>open(..., 'w')\<close> truncates the file before the loop starts.
\<close>

datatype path = InputXml | OutputTxt | StationpediaJson | DeviceHashesRs

type_synonym fs = "path \<Rightarrow> pystr option"

datatype outcome = Completed | Exited | Raised error

datatype xml_source = XmlAbsent | XmlMalformed | XmlDocument "record_thing list"

definition run_generate :: "xml_source \<Rightarrow> bool \<Rightarrow> fs \<Rightarrow> outcome \<times> fs" where
  "run_generate src writable files =
    (case src of
       XmlAbsent \<Rightarrow> (Exited, files)
     | XmlMalformed \<Rightarrow> (Raised ParseError, files)
     | XmlDocument things \<Rightarrow>
        (let d = load_records things [] in
         if \<not> writable then (Raised OSError, files)
         else (case sorted_keys (map fst d) of
                 Inl e \<Rightarrow> (Raised e, files(OutputTxt \<mapsto> []))
               | Inr ks \<Rightarrow>
                  (case emit_lines d ks [] of
                     (None, out) \<Rightarrow> (Completed, files(OutputTxt \<mapsto> concat out))
                   | (Some e, out) \<Rightarrow> (Raised e, files(OutputTxt \<mapsto> concat out))))))"

section \<open>The code emitter of \<open>update_device_hashes.py\<close>\<close>

text \<open>
  A page of \<open>Stationpedia.json\<close>: each of the three fields is absent, \<open>null\<close>, or a value of
  the type the export gives it (a string for \<open>PrefabName\<close> and \<open>Title\<close>, an integer for
  \<open>PrefabHash\<close>). \<open>page.get(k)\<close> is \<open>None\<close> for an absent and for a \<open>null\<close> field;
  \<open>page.get(k, dflt)\<close> is the default only for an absent one.
\<close>

datatype 'a field = Missing | Null | Val 'a

record page =
  PrefabName :: "pystr field"
  PrefabHash :: "int field"
  Title :: "pystr field"

fun get :: "'a field \<Rightarrow> 'a option" where
  "get Missing = None"
| "get Null = None"
| "get (Val v) = Some v"

fun get_default :: "'a field \<Rightarrow> 'a \<Rightarrow> 'a option" where
  "get_default Missing dflt = Some dflt"
| "get_default Null dflt = None"
| "get_default (Val v) dflt = Some v"

text \<open>Line 26: \<open>title.replace('<N:EN:', '').replace('>', '').strip()\<close>.\<close>

definition clean_title :: "pystr \<Rightarrow> pystr" where
  "clean_title title =
     strip_py (replace_py (lit ''>'') [] (replace_py (lit ''<N:EN:'') [] title))"

text \<open>Lines 26-28: the display name of a kept page.\<close>

definition display_name :: "pystr \<Rightarrow> pystr \<Rightarrow> pystr" where
  "display_name title prefab_name =
     (let display_name = clean_title title
      in if display_name = [] then prefab_name else display_name)"

text \<open>
  Lines 20-28: what one page contributes. A page is skipped when its name is absent,
  \<open>null\<close> or empty, or its hash is absent or \<open>null\<close>; a \<open>null\<close> title of a kept page has no
  \<open>replace\<close>.
\<close>

definition page_entry :: "page \<Rightarrow> error + (pystr \<times> int \<times> pystr) option" where
  "page_entry p =
    (let prefab_name = get (PrefabName p);
         prefab_hash = get (PrefabHash p);
         title = get_default (Title p) []
     in case (prefab_name, prefab_hash) of
          (Some n, Some h) \<Rightarrow>
            (if n \<noteq> [] then
               (case title of
                  None \<Rightarrow> Inl AttributeError
                | Some t \<Rightarrow> Inr (Some (n, h, display_name t n)))
             else Inr None)
        | _ \<Rightarrow> Inr None)"

text \<open>Lines 16-31: the loop that fills \<open>device_map\<close> and \<open>hash_to_name\<close>.\<close>

type_synonym device_map = "(pystr \<times> (int \<times> pystr)) list"
type_synonym hash_to_name = "(int \<times> pystr) list"

fun build_tables :: "page list \<Rightarrow> device_map \<times> hash_to_name
    \<Rightarrow> error + (device_map \<times> hash_to_name)" where
  "build_tables [] tabs = Inr tabs"
| "build_tables (p # ps) tabs =
    (case page_entry p of
       Inl e \<Rightarrow> Inl e
     | Inr None \<Rightarrow> build_tables ps tabs
     | Inr (Some (n, h, dn)) \<Rightarrow>
         build_tables ps (AList.update n (h, dn) (fst tabs), AList.update h dn (snd tabs)))"

text \<open>
  The entries the loop of lines 19-31 keeps, in input order: name, hash and display name
  of every page that passes the test of line 24.
\<close>

fun kept_entries :: "page list \<Rightarrow> (pystr \<times> int \<times> pystr) list" where
  "kept_entries [] = []"
| "kept_entries (p # ps) =
    (case page_entry p of
       Inr (Some e) \<Rightarrow> e # kept_entries ps
     | _ \<Rightarrow> kept_entries ps)"


text \<open>Lines 36-62: the generated Rust source, line by line; 92 is the backslash.\<close>

definition rust_header :: "pystr list" where
  "rust_header =
    [lit ''// Device name to hash mapping for HASH() function tooltip support'' @ [10],
     lit ''// Auto-generated from Stationpedia.json'' @ [10],
     [10],
     lit ''use phf::phf_map;'' @ [10],
     [10],
     lit ''pub static DEVICE_NAME_TO_HASH: phf::Map<&'' @ [39]
       @ lit ''static str, i32> = phf_map! {'' @ [10]]"

definition rust_middle :: "pystr list" where
  "rust_middle =
    [lit ''};'' @ [10],
     [10],
     lit ''pub static HASH_TO_DISPLAY_NAME: phf::Map<i32, &'' @ [39]
       @ lit ''static str> = phf_map! {'' @ [10]]"

definition rust_footer :: "pystr list" where
  "rust_footer = [lit ''};'' @ [10]]"

definition name_line :: "pystr \<Rightarrow> int \<Rightarrow> pystr" where
  "name_line prefab_name hash_value =
     [32, 32, 32, 32, 34] @ prefab_name @ [34] @ lit '' => '' @ str_int hash_value @ [44, 10]"

definition escape_display :: "pystr \<Rightarrow> pystr" where
  "escape_display dn = replace_py [34] [92, 34] (replace_py [92] [92, 92] dn)"

definition hash_line :: "int \<Rightarrow> pystr \<Rightarrow> pystr" where
  "hash_line hash_value dn =
     [32, 32, 32, 32] @ str_int hash_value @ lit '' => '' @ [34] @ escape_display dn
       @ [34, 44, 10]"

fun name_lines :: "device_map \<Rightarrow> pystr list \<Rightarrow> error + pystr list" where
  "name_lines dm [] = Inr []"
| "name_lines dm (n # ns) =
    (case map_of dm n of
       None \<Rightarrow> Inl KeyError
     | Some (hash_value, _) \<Rightarrow>
        (case name_lines dm ns of
           Inl e \<Rightarrow> Inl e
         | Inr ls \<Rightarrow> Inr (name_line n hash_value # ls)))"

fun hash_lines :: "hash_to_name \<Rightarrow> int list \<Rightarrow> error + pystr list" where
  "hash_lines hn [] = Inr []"
| "hash_lines hn (h # hs) =
    (case map_of hn h of
       None \<Rightarrow> Inl KeyError
     | Some dn \<Rightarrow>
        (case hash_lines hn hs of
           Inl e \<Rightarrow> Inl e
         | Inr ls \<Rightarrow> Inr (hash_line h dn # ls)))"

definition rust_code :: "device_map \<times> hash_to_name \<Rightarrow> error + pystr list" where
  "rust_code tabs =
    (case name_lines (fst tabs) (sorted_py (map fst (fst tabs))) of
       Inl e \<Rightarrow> Inl e
     | Inr nls \<Rightarrow>
        (case hash_lines (snd tabs) (sorted_py (map fst (snd tabs))) of
           Inl e \<Rightarrow> Inl e
         | Inr hls \<Rightarrow> Inr (rust_header @ nls @ rust_middle @ hls @ rust_footer)))"

text \<open>
  The console: line 33 and the summary of lines 69-71 (9989 is the check mark). The two
  counts are all the summary says about the tables.
\<close>

definition found_line :: "device_map \<Rightarrow> pystr" where
  "found_line dm = lit ''Found '' @ str_int (int (length dm)) @ lit '' devices''"

definition summary :: "device_map \<times> hash_to_name \<Rightarrow> pystr list" where
  "summary tabs =
    [[9989] @ lit '' Done! Device hashes updated.'',
     lit ''   - '' @ str_int (int (length (fst tabs))) @ lit '' device names mapped'',
     lit ''   - '' @ str_int (int (length (snd tabs))) @ lit '' hash values mapped'']"

datatype json_source = JsonAbsent | JsonMalformed | JsonNoPages | JsonDocument "page list"

text \<open>
  The whole run: outcome, console and file system. \<open>output_path\<close> is the constant of
  line 9; the file is opened for writing only at line 66, after the text is complete.
  \<open>open(..., 'w')\<close> truncates the file; \<open>f.write\<close> at line 67 encodes the text as
  UTF-8 and raises \<open>UnicodeEncodeError\<close> on a lone surrogate, which leaves the file empty
  and the summary unprinted.
\<close>

definition run_update :: "pystr \<Rightarrow> json_source \<Rightarrow> bool \<Rightarrow> fs
    \<Rightarrow> outcome \<times> pystr list \<times> fs" where
  "run_update output_path src writable files =
    (let loading = lit ''Loading Stationpedia.json...'' in
     case src of
       JsonAbsent \<Rightarrow> (Raised FileNotFoundError, [loading], files)
     | JsonMalformed \<Rightarrow> (Raised JSONDecodeError, [loading], files)
     | JsonNoPages \<Rightarrow> (Raised KeyError, [loading], files)
     | JsonDocument pages \<Rightarrow>
        (case build_tables pages ([], []) of
           Inl e \<Rightarrow> (Raised e, [loading], files)
         | Inr tabs \<Rightarrow>
            (case rust_code tabs of
               Inl e \<Rightarrow> (Raised e, [loading, found_line (fst tabs)], files)
             | Inr code \<Rightarrow>
                (let writing = lit ''Writing to '' @ output_path @ lit ''...'' in
                 if \<not> writable
                 then (Raised OSError, [loading, found_line (fst tabs), writing], files)
                 else (case encode_utf8 (concat code) of
                         Inl e \<Rightarrow>
                           (Raised e, [loading, found_line (fst tabs), writing],
                            files(DeviceHashesRs \<mapsto> []))
                       | Inr _ \<Rightarrow>
                           (Completed,
                            [loading, found_line (fst tabs), writing] @ summary tabs,
                            files(DeviceHashesRs \<mapsto> concat code)))))))"

section \<open>Theorems\<close>

subsection \<open>The table-driven checksum is the bitwise one\<close>

lemma crc_shift_xor: "crc_shift (a XOR b) = crc_shift a XOR crc_shift b"
  by (simp add: crc_shift_def bit_xor_iff drop_bit_eq_div[symmetric] ac_simps)

lemma crc_shift_pow_xor:
  "(crc_shift ^^ k) (a XOR b) = (crc_shift ^^ k) a XOR (crc_shift ^^ k) b"
  by (induction k) (simp_all add: crc_shift_xor)

lemma crc_shift_high:
  fixes w :: "32 word"
  assumes "w AND 0xFF = 0" and "k \<le> 8"
  shows "(crc_shift ^^ k) w = drop_bit k w"
  using assms(2)
proof (induction k)
  case 0
  then show ?case by simp
next
  case (Suc k)
  have m: "(0xFF :: 32 word) = mask 8" by (simp add: mask_eq_exp_minus_1)
  have "\<not> bit w k"
  proof
    assume "bit w k"
    with Suc.prems have "bit (w AND mask 8) k" by (simp add: bit_and_iff bit_mask_iff)
    with assms(1) m show False by simp
  qed
  then have "\<not> bit (drop_bit k w) 0" by (simp add: bit_drop_bit_eq)
  with Suc show ?case by (simp add: crc_shift_def)
qed

lemma word_split_low_byte:
  fixes x :: "32 word"
  shows "x = (x AND 0xFF) XOR (x AND NOT 0xFF)"
  by (rule bit_word_eqI) (auto simp add: bit_simps)

lemma crc_shift8_split:
  fixes x :: "32 word"
  shows "(crc_shift ^^ 8) x = (crc_shift ^^ 8) (x AND 0xFF) XOR drop_bit 8 x"
proof -
  have m: "(0xFF :: 32 word) = mask 8" by (simp add: mask_eq_exp_minus_1)
  have z: "(x AND NOT 0xFF) AND 0xFF = 0"
    by (rule bit_word_eqI) (auto simp add: bit_simps)
  have d: "drop_bit 8 (x AND NOT 0xFF) = drop_bit 8 x"
    unfolding m by (rule bit_word_eqI) (auto simp add: bit_simps dest: bit_imp_le_length)
  have "(crc_shift ^^ 8) x = (crc_shift ^^ 8) ((x AND 0xFF) XOR (x AND NOT 0xFF))"
    using word_split_low_byte[of x] by simp
  also have "\<dots> = (crc_shift ^^ 8) (x AND 0xFF) XOR (crc_shift ^^ 8) (x AND NOT 0xFF)"
    by (rule crc_shift_pow_xor)
  also have "(crc_shift ^^ 8) (x AND NOT 0xFF) = drop_bit 8 x"
    using crc_shift_high[OF z, of 8] d by simp
  finally show ?thesis .
qed

lemma crc_table_nth:
  fixes y :: "32 word"
  shows "crc_table ! unat (y AND 0xFF) = (crc_shift ^^ 8) (y AND 0xFF)"
proof -
  have "y AND 0xFF \<le> 0xFF" by (rule word_and_le1)
  then have "unat (y AND 0xFF) \<le> 255" by (simp add: word_le_nat_alt)
  then have "unat (y AND 0xFF) < 256" by simp
  then show ?thesis by (simp add: crc_table_def crc_table_entry_def)
qed

lemma crc_update_bitwise: "crc_update b c = (crc_shift ^^ 8) (c XOR ucast b)"
proof -
  have "drop_bit 8 (ucast b :: 32 word) = 0"
    by (rule bit_word_eqI) (auto simp add: bit_simps dest: bit_imp_le_length)
  then have d: "drop_bit 8 (c XOR ucast b) = drop_bit 8 c"
    by (simp add: drop_bit_eq_div[symmetric])
  show ?thesis
    unfolding crc_update_def crc_table_nth
    using crc_shift8_split[of "c XOR ucast b"] d by simp
qed

lemma crc_loop_bitwise: "crc_loop bs c = crc_bits bs c"
  by (induction bs arbitrary: c) (simp_all add: crc_update_bitwise)

lemma zlib_crc32_bitwise: "zlib_crc32 bs = crc32_ieee bs"
  by (simp add: zlib_crc32_def crc32_ieee_def crc_loop_bitwise)

lemma funpow8: "(f ^^ 8) x = f (f (f (f (f (f (f (f x)))))))"
  by (simp add: numeral_eq_Suc)

subsection \<open>UTF-8 encoding and the range of the checksum\<close>

lemma utf8_char_scalar: "is_scalar c \<Longrightarrow> \<exists>b. utf8_char c = Inr b"
  by (auto simp add: utf8_char_def is_scalar_def)

lemma encode_utf8_scalar:
  "\<forall>c\<in>set s. is_scalar c \<Longrightarrow> \<exists>bs. encode_utf8 s = Inr bs"
proof (induction s)
  case Nil
  then show ?case by simp
next
  case (Cons c cs)
  then obtain r where r: "encode_utf8 cs = Inr r" by auto
  from Cons.prems have "is_scalar c" by simp
  then obtain b where "utf8_char c = Inr b"
    using utf8_char_scalar by blast
  with r show ?case by simp
qed

lemma unsigned_hash_range:
  assumes "unsigned_hash s = Inr u"
  shows "0 \<le> u \<and> u < 4294967296"
proof -
  from assms obtain bs where "u = uint (zlib_crc32 bs)"
    by (auto simp: unsigned_hash_def split: sum.splits)
  moreover have "uint (zlib_crc32 bs) < 2 ^ LENGTH(32)" by (rule uint_lt2p)
  ultimately show ?thesis by simp
qed

lemma crc32_ieee_a: "crc32_ieee [97] = 3904355907"
  by (simp add: crc32_ieee_def crc_shift_def crc_poly_def funpow8)

lemma crc32_ieee_abc: "crc32_ieee [97, 98, 99] = 891568578"
  by (simp add: crc32_ieee_def crc_shift_def crc_poly_def funpow8)

lemma crc32_ieee_check: "crc32_ieee [49, 50, 51, 52, 53, 54, 55, 56, 57] = 0xCBF43926"
  by (simp add: crc32_ieee_def crc_shift_def crc_poly_def funpow8)

lemma encode_utf8_abc: "encode_utf8 (lit ''abc'') = Inr [97, 98, 99]"
  by (simp add: lit_def utf8_char_def)

subsection \<open>The signed reading of the checksum\<close>

lemma xor_top_bit:
  "(u::int) XOR 2147483648 = (if bit u 31 then u - 2147483648 else u + 2147483648)"
proof -
  have "u XOR 2147483648 = flip_bit 31 u" by (simp add: flip_bit_eq_xor)
  also have "\<dots> = (if bit u 31 then u - 2147483648 else u + 2147483648)"
    by (simp add: flip_bit_eq_if set_bit_eq unset_bit_eq)
  finally show ?thesis .
qed

lemma bit31_iff:
  assumes "0 \<le> (u::int)" "u < 4294967296"
  shows "bit u 31 \<longleftrightarrow> 2147483648 \<le> u"
proof (cases "2147483648 \<le> u")
  case True
  have "u div 2147483648 = 1"
    by (rule int_div_pos_eq[of _ _ _ "u - 2147483648"]) (use True assms in simp_all)
  then show ?thesis using True by (simp add: bit_iff_odd)
next
  case False
  then have "u div 2147483648 = 0" using assms by simp
  then show ?thesis using False by (simp add: bit_iff_odd)
qed

lemma signed_hash_cases:
  assumes "0 \<le> u" "u < 4294967296"
  shows "signed_hash u = (if 2147483648 \<le> u then u - 4294967296 else u)"
  using bit31_iff[OF assms] by (simp add: signed_hash_def xor_top_bit)

lemma signed_hash_sint:
  assumes "0 \<le> u" "u < 4294967296"
  shows "signed_hash u = sint (word_of_int u :: 32 word)"
proof (cases "2147483648 \<le> u")
  case True
  have "(u + 2147483648) mod 4294967296 = u - 2147483648"
    by (rule int_mod_pos_eq[of _ _ 1]) (use True assms in simp_all)
  then show ?thesis
    using True signed_hash_cases[OF assms] by (simp add: int_word_sint)
next
  case False
  then have "(u + 2147483648) mod 4294967296 = u + 2147483648"
    using assms by simp
  then show ?thesis
    using False signed_hash_cases[OF assms] by (simp add: int_word_sint)
qed

subsection \<open>Claims about the hash engine\<close>

text \<open>
  C1. The unsigned hash of an identifier is the CRC-32/IEEE checksum of its UTF-8 octets:
  the value \<open>zlib.crc32\<close> computes with its table is the one the bit-by-bit definition
  gives. The hash of the empty identifier is 0, every hash lies between 0 and \<open>2^32 - 1\<close>,
  and a string of Unicode scalar values (any string an XML document can hold) always has a
  hash; a string with a surrogate has no UTF-8 encoding and \<open>encode\<close> raises.
\<close>

theorem unsigned_hash_is_crc32:
  "unsigned_hash [] = Inr 0 \<and>
   ((\<forall>c\<in>set s. is_scalar c) \<longrightarrow>
      (\<exists>bs. encode_utf8 s = Inr bs \<and> unsigned_hash s = Inr (uint (crc32_ieee bs)))) \<and>
   (\<forall>bs. encode_utf8 s = Inr bs \<longrightarrow> unsigned_hash s = Inr (uint (crc32_ieee bs))) \<and>
   (\<forall>e. encode_utf8 s = Inl e \<longrightarrow> unsigned_hash s = Inl e) \<and>
   (\<forall>u. unsigned_hash s = Inr u \<longrightarrow> 0 \<le> u \<and> u \<le> 2 ^ 32 - 1)"
proof (intro conjI impI allI)
  show "unsigned_hash [] = Inr 0"
    by (simp add: unsigned_hash_def zlib_crc32_def)
next
  assume "\<forall>c\<in>set s. is_scalar c"
  then obtain bs where "encode_utf8 s = Inr bs"
    using encode_utf8_scalar by blast
  then show "\<exists>bs. encode_utf8 s = Inr bs \<and> unsigned_hash s = Inr (uint (crc32_ieee bs))"
    by (simp add: unsigned_hash_def zlib_crc32_bitwise)
next
  fix bs assume "encode_utf8 s = Inr bs"
  then show "unsigned_hash s = Inr (uint (crc32_ieee bs))"
    by (simp add: unsigned_hash_def zlib_crc32_bitwise)
next
  fix e assume "encode_utf8 s = Inl e"
  then show "unsigned_hash s = Inl e" by (simp add: unsigned_hash_def)
next
  fix u assume "unsigned_hash s = Inr u"
  then show "0 \<le> u" using unsigned_hash_range by blast
next
  fix u assume "unsigned_hash s = Inr u"
  then have "u < 4294967296" using unsigned_hash_range by blast
  then show "u \<le> 2 ^ 32 - 1" by simp
qed

theorem unsigned_hash_is_crc32_witness:
  "list_all is_scalar (lit ''abc'') \<and> encode_utf8 (lit ''abc'') = Inr [97, 98, 99] \<and>
   unsigned_hash (lit ''abc'') = Inr 891568578 \<and> crc32_ieee [97, 98, 99] = 891568578 \<and>
   crc32_ieee [49, 50, 51, 52, 53, 54, 55, 56, 57] = 0xCBF43926"
proof -
  have sc: "\<forall>c\<in>set (lit ''abc''). is_scalar c"
    by (simp add: lit_def is_scalar_def)
  with unsigned_hash_is_crc32[of "lit ''abc''"]
  obtain bs where "encode_utf8 (lit ''abc'') = Inr bs"
    and h: "unsigned_hash (lit ''abc'') = Inr (uint (crc32_ieee bs))"
    by blast
  then have "bs = [97, 98, 99]" by (simp add: encode_utf8_abc)
  with h have "unsigned_hash (lit ''abc'') = Inr 891568578"
    by (simp add: crc32_ieee_abc)
  with sc show ?thesis
    using crc32_ieee_check by (simp add: encode_utf8_abc crc32_ieee_abc list_all_iff)
qed

text \<open>
  C2. For an unsigned hash \<open>u\<close> in \<open>[0, 2^32 - 1]\<close> the expression
  \<open>(u ^ 0x80000000) - 0x80000000\<close> is \<open>u - 2^32\<close> when \<open>u \<ge> 2^31\<close> and \<open>u\<close> otherwise,
  which is the two's-complement reading of the 32-bit value; this holds for the hash of
  every identifier.
\<close>

theorem signed_hash_twos_complement:
  "(0 \<le> u \<and> u \<le> 2 ^ 32 - 1 \<longrightarrow>
      signed_hash u = (if 2 ^ 31 \<le> u then u - 2 ^ 32 else u) \<and>
      signed_hash u = sint (word_of_int u :: 32 word)) \<and>
   (unsigned_hash s = Inr u \<longrightarrow>
      signed_hash u = (if 2 ^ 31 \<le> u then u - 2 ^ 32 else u))"
proof (intro conjI impI)
  assume "0 \<le> u \<and> u \<le> 2 ^ 32 - 1"
  then have r: "0 \<le> u" "u < 4294967296" by simp_all
  show "signed_hash u = (if 2 ^ 31 \<le> u then u - 2 ^ 32 else u)"
    using signed_hash_cases[OF r] by simp
  show "signed_hash u = sint (word_of_int u :: 32 word)"
    by (rule signed_hash_sint[OF r])
next
  assume "unsigned_hash s = Inr u"
  then have r: "0 \<le> u" "u < 4294967296" using unsigned_hash_range by blast+
  show "signed_hash u = (if 2 ^ 31 \<le> u then u - 2 ^ 32 else u)"
    using signed_hash_cases[OF r] by simp
qed

theorem signed_hash_twos_complement_witness:
  "unsigned_hash [97] = Inr 3904355907 \<and> signed_hash 3904355907 = - 390611389 \<and>
   signed_hash 3904355907 = sint (3904355907 :: 32 word) \<and>
   signed_hash 891568578 = 891568578"
proof -
  have u: "unsigned_hash [97] = Inr 3904355907"
    by (simp add: unsigned_hash_def utf8_char_def zlib_crc32_bitwise crc32_ieee_a)
  have "signed_hash 3904355907 = - 390611389"
    using signed_hash_twos_complement[of 3904355907 "[97]"] u by simp
  moreover have "signed_hash 3904355907 = sint (3904355907 :: 32 word)"
    using signed_hash_twos_complement[of 3904355907 "[97]"] by simp
  moreover have "signed_hash 891568578 = 891568578"
    using signed_hash_twos_complement[of 891568578 "[]"] by simp
  ultimately show ?thesis using u by simp
qed

subsection \<open>The canonicalizer\<close>


lemma strip_py_prefix_suffix: "sublist (strip_py s) s"
proof -
  have "suffix (dropWhile is_space (rev (dropWhile is_space s))) (rev (dropWhile is_space s))"
    by (rule suffix_dropWhile)
  then have "prefix (strip_py s) (dropWhile is_space s)"
    by (simp add: suffix_to_prefix strip_py_def)
  moreover have "suffix (dropWhile is_space s) s" by (rule suffix_dropWhile)
  ultimately show ?thesis using sublist_altdef' by blast
qed


lemma replace_py_del_char: "c \<notin> set (replace_py [c] [] s)"
proof (induction s)
  case Nil
  then show ?case by simp
next
  case (Cons a s)
  then show ?case by (cases "a = c") auto
qed

lemma set_strip_py: "set (strip_py s) \<subseteq> set s"
  using strip_py_prefix_suffix[of s] by (meson set_mono_sublist)

lemma clean_title_no_gt: "62 \<notin> set (clean_title title)"
proof -
  have "lit ''>'' = [62]" by (simp add: lit_def)
  then show ?thesis
    unfolding clean_title_def using replace_py_del_char[of 62] set_strip_py by fastforce
qed

lemma replace_py_absent: "\<not> sublist old s \<Longrightarrow> replace_py old new s = s"
proof (induction s)
  case Nil
  then show ?case by simp
next
  case (Cons c cs)
  then have "\<not> prefix old (c # cs)" and "\<not> sublist old cs"
    by (simp_all add: sublist_Cons_right)
  with Cons.IH show ?case by simp
qed

lemma sublist_single: "sublist [c] s \<longleftrightarrow> c \<in> set s"
  by (induction s) (auto simp: sublist_Cons_right)

lemma clean_title_plain:
  assumes "62 \<notin> set title" and "\<not> sublist (lit ''<N:EN:'') title"
  shows "clean_title title = strip_py title"
proof -
  have g: "lit ''>'' = [62]" by (simp add: lit_def)
  have "replace_py (lit ''<N:EN:'') [] title = title"
    using assms(2) by (rule replace_py_absent)
  moreover have "replace_py (lit ''>'') [] title = title"
    unfolding g using assms(1) by (intro replace_py_absent) (simp add: sublist_single)
  ultimately show ?thesis by (simp add: clean_title_def)
qed

lemma display_name_nonempty_aux: "n \<noteq> [] \<Longrightarrow> display_name t n \<noteq> []"
  by (simp add: display_name_def Let_def)

lemma page_entry_total: "Title p \<noteq> Null \<Longrightarrow> \<exists>r. page_entry p = Inr r"
  by (cases "Title p") (auto simp: page_entry_def Let_def split: option.splits)

lemma page_entry_SomeD:
  assumes "page_entry p = Inr (Some (n, h, d))"
  shows "n \<noteq> [] \<and> PrefabName p = Val n \<and> PrefabHash p = Val h \<and>
         (\<exists>t. get_default (Title p) [] = Some t \<and> d = display_name t n)"
proof -
  from assms have "get (PrefabName p) = Some n \<and> get (PrefabHash p) = Some h \<and> n \<noteq> [] \<and>
         (\<exists>t. get_default (Title p) [] = Some t \<and> d = display_name t n)"
    by (auto simp: page_entry_def Let_def split: option.splits if_splits)
  moreover have "get (PrefabName p) = Some n \<Longrightarrow> PrefabName p = Val n"
    by (cases "PrefabName p") simp_all
  moreover have "get (PrefabHash p) = Some h \<Longrightarrow> PrefabHash p = Val h"
    by (cases "PrefabHash p") simp_all
  ultimately show ?thesis by blast
qed

lemma clean_1: "clean_title (lit ''<N:EN:Pipe Analyzer>'') = lit ''Pipe Analyzer''"
  by (simp add: clean_title_def lit_def strip_py_def is_space_def)

lemma clean_2: "clean_title (lit ''<b>Hi</b>'') = lit ''<bHi</b''"
  by (simp add: clean_title_def lit_def strip_py_def is_space_def)

lemma clean_3: "clean_title (lit ''  '') = []"
  by (simp add: clean_title_def lit_def strip_py_def is_space_def)

text \<open>
  C3. Canonicalization never fails on a string and never yields an empty display name for
  an entry of the table: the title is stripped of \<open><N:EN:\<close> and \<open>>\<close> and trimmed, and the
  identifier is substituted when nothing is left. The loop keeps a page only when its
  identifier is non-empty, so the substituted identifier is non-empty too; an empty title
  for \<open>DeviceB\<close> gives the display name \<open>DeviceB\<close>.
\<close>

theorem canonical_display_name_nonempty:
  "(prefab_name \<noteq> [] \<longrightarrow> display_name title prefab_name \<noteq> []) \<and>
   (clean_title title = [] \<longrightarrow> display_name title prefab_name = prefab_name) \<and>
   (clean_title title \<noteq> [] \<longrightarrow> display_name title prefab_name = clean_title title) \<and>
   (Title p \<noteq> Null \<longrightarrow> (\<exists>r. page_entry p = Inr r)) \<and>
   (\<forall>n h d. page_entry p = Inr (Some (n, h, d)) \<longrightarrow> d \<noteq> [])"
proof (intro conjI impI allI)
  assume "prefab_name \<noteq> []"
  then show "display_name title prefab_name \<noteq> []" by (rule display_name_nonempty_aux)
next
  assume "clean_title title = []"
  then show "display_name title prefab_name = prefab_name" by (simp add: display_name_def)
next
  assume "clean_title title \<noteq> []"
  then show "display_name title prefab_name = clean_title title"
    by (simp add: display_name_def Let_def)
next
  assume "Title p \<noteq> Null"
  then show "\<exists>r. page_entry p = Inr r" by (rule page_entry_total)
next
  fix n h d assume e: "page_entry p = Inr (Some (n, h, d))"
  from page_entry_SomeD[OF e] obtain t where "n \<noteq> []" and "d = display_name t n"
    by auto
  then show "d \<noteq> []" by (simp add: display_name_nonempty_aux)
qed

theorem canonical_display_name_nonempty_witness:
  "display_name [] (lit ''DeviceB'') = lit ''DeviceB'' \<and>
   display_name (lit ''  '') (lit ''DeviceB'') = lit ''DeviceB'' \<and>
   display_name (lit ''<N:EN:Pipe Analyzer>'') (lit ''DeviceA'') = lit ''Pipe Analyzer'' \<and>
   lit ''Pipe Analyzer'' \<noteq> [] \<and>
   page_entry \<lparr>PrefabName = Val (lit ''DeviceB''), PrefabHash = Val 7, Title = Val []\<rparr>
     = Inr (Some (lit ''DeviceB'', 7, lit ''DeviceB''))"
proof -
  let ?p = "\<lparr>PrefabName = Val (lit ''DeviceB''), PrefabHash = Val 7, Title = Val []\<rparr>"
  have c0: "clean_title [] = []" by (simp add: clean_title_def strip_py_def)
  have "clean_title [] = [] \<longrightarrow> display_name [] (lit ''DeviceB'') = lit ''DeviceB''"
    using canonical_display_name_nonempty[of "lit ''DeviceB''" "[]" ?p] by blast
  with c0 have a: "display_name [] (lit ''DeviceB'') = lit ''DeviceB''" by blast
  have "clean_title (lit ''  '') = [] \<longrightarrow>
        display_name (lit ''  '') (lit ''DeviceB'') = lit ''DeviceB''"
    using canonical_display_name_nonempty[of "lit ''DeviceB''" "lit ''  ''" ?p] by blast
  with clean_3 have b: "display_name (lit ''  '') (lit ''DeviceB'') = lit ''DeviceB''" by blast
  have e: "lit ''Pipe Analyzer'' \<noteq> []" by (simp add: lit_def)
  then have ne: "clean_title (lit ''<N:EN:Pipe Analyzer>'') \<noteq> []"
    unfolding clean_1 .
  have "clean_title (lit ''<N:EN:Pipe Analyzer>'') \<noteq> [] \<longrightarrow>
        display_name (lit ''<N:EN:Pipe Analyzer>'') (lit ''DeviceA'')
          = clean_title (lit ''<N:EN:Pipe Analyzer>'')"
    using canonical_display_name_nonempty[of "lit ''DeviceA''" "lit ''<N:EN:Pipe Analyzer>''" ?p]
    by blast
  with ne have c: "display_name (lit ''<N:EN:Pipe Analyzer>'') (lit ''DeviceA'')
      = lit ''Pipe Analyzer''"
    unfolding clean_1 by blast
  have n: "lit ''DeviceB'' \<noteq> []" by (simp add: lit_def)
  have d: "page_entry ?p = Inr (Some (lit ''DeviceB'', 7, lit ''DeviceB''))"
    using n by (simp add: page_entry_def a)
  from a b c d e show ?thesis by blast
qed

text \<open>
  C9. The canonicalizer does not fail on a string title, but it does not pass unknown
  markup through: \<open>replace('>', '')\<close> deletes every \<open>>\<close> wherever it stands, not only the
  one that closes a \<open><N:EN:\<close> wrapper. The title \<open><b>Hi</b>\<close> becomes \<open><bHi</b\<close>, which is
  neither the title unchanged nor, as the comment on line 25 announces, the title with its
  HTML tags removed.
\<close>

theorem canonicalizer_mangles_unknown_markup:
  "display_name (lit ''<b>Hi</b>'') (lit ''X'') = lit ''<bHi</b'' \<and>
   display_name (lit ''<b>Hi</b>'') (lit ''X'') \<noteq> lit ''<b>Hi</b>'' \<and>
   display_name (lit ''<b>Hi</b>'') (lit ''X'') \<noteq> lit ''Hi'' \<and>
   page_entry \<lparr>PrefabName = Val (lit ''X''), PrefabHash = Val 1, Title = Val (lit ''<b>Hi</b>'')\<rparr>
     = Inr (Some (lit ''X'', 1, lit ''<bHi</b''))"
proof -
  have d: "display_name (lit ''<b>Hi</b>'') (lit ''X'') = lit ''<bHi</b''"
    by (simp add: display_name_def clean_2) (simp add: lit_def)
  have n: "lit ''<bHi</b'' \<noteq> lit ''<b>Hi</b>''" "lit ''<bHi</b'' \<noteq> lit ''Hi''"
    by (simp_all add: lit_def)
  have x: "lit ''X'' \<noteq> []" by (simp add: lit_def)
  have p: "page_entry \<lparr>PrefabName = Val (lit ''X''), PrefabHash = Val 1,
      Title = Val (lit ''<b>Hi</b>'')\<rparr> = Inr (Some (lit ''X'', 1, lit ''<bHi</b''))"
    using x by (simp add: page_entry_def d)
  from d n p show ?thesis by simp
qed

subsection \<open>The text emitter\<close>

lemma map_of_load_records:
  "map_of (load_records things d) k =
    (case filter (\<lambda>t. Key t = k) things of
       [] \<Rightarrow> map_of d k
     | t # ts \<Rightarrow> Some (findtext_default (Value (last (t # ts))) []))"
proof (induction things arbitrary: d)
  case Nil
  then show ?case by simp
next
  case (Cons a things)
  let ?d = "AList.update (Key a) (findtext_default (Value a) []) d"
  have d: "map_of ?d k = (if Key a = k then Some (findtext_default (Value a) []) else map_of d k)"
    by (simp add: update_conv')
  show ?case
  proof (cases "filter (\<lambda>t. Key t = k) things")
    case Nil
    then show ?thesis using Cons.IH[of ?d] d by simp
  next
    case (Cons b bs)
    then show ?thesis using Cons.IH[of ?d] by simp
  qed
qed

lemma keys_load_records:
  "fst ` set (load_records things d) = fst ` set d \<union> Key ` set things"
  by (induction things arbitrary: d) (auto simp: dom_update)

lemma distinct_load_records:
  "distinct (map fst d) \<Longrightarrow> distinct (map fst (load_records things d))"
  by (induction things arbitrary: d) (simp_all add: distinct_update)

lemma set_str_nat: "set (str_nat n) \<subseteq> {48..57}"
proof (induction n rule: str_nat.induct)
  case (1 n)
  show ?case
  proof (cases "n < 10")
    case True
    then show ?thesis by (subst str_nat.simps) auto
  next
    case False
    have "n mod 10 < 10" by simp
    then have "48 + n mod 10 \<in> {48..57}" by auto
    with False 1 show ?thesis by (subst str_nat.simps) simp
  qed
qed

lemma set_hex_nat: "set (hex_nat n) \<subseteq> {48..57} \<union> {97..102}"
proof (induction n rule: hex_nat.induct)
  case (1 n)
  have d: "hex_digit k \<in> {48..57} \<union> {97..102}" if "k < 16" for k
    using that by (auto simp: hex_digit_def)
  show ?case
  proof (cases "n < 16")
    case True
    then show ?thesis using d[of n] by (subst hex_nat.simps) simp
  next
    case False
    have "n mod 16 < 16" by simp
    then have "hex_digit (n mod 16) \<in> {48..57} \<union> {97..102}" by (rule d)
    with False 1 show ?thesis by (subst hex_nat.simps) simp
  qed
qed

lemma scalar_str_int: "list_all is_scalar (str_int i)"
proof -
  have "set (str_int i) \<subseteq> {45} \<union> {48..57}"
    using set_str_nat by (auto simp: str_int_def)
  then show ?thesis by (auto simp: list_all_iff is_scalar_def)
qed

lemma scalar_hex_hash: "list_all is_scalar (hex_hash u)"
proof -
  have "lit ''-0x'' = [45, 48, 120]" "lit ''0x'' = [48, 120]" by (simp_all add: lit_def)
  then have "set (hex_hash u) \<subseteq> {45, 48, 120} \<union> ({48..57} \<union> {97..102})"
    using set_hex_nat by (auto simp: hex_hash_def hex_py_def)
  then show ?thesis by (auto simp: list_all_iff is_scalar_def)
qed

lemma scalar_text_line:
  assumes "list_all is_scalar k" "list_all is_scalar v"
  shows "list_all is_scalar (text_line k sh (hex_hash u) v)"
  using assms scalar_str_int[of sh] scalar_hex_hash[of u]
  by (simp add: text_line_def is_scalar_def)

lemma encode_utf8_list_all: "list_all is_scalar s \<Longrightarrow> \<exists>bs. encode_utf8 s = Inr bs"
  using encode_utf8_scalar by (simp add: list_all_iff)

lemma unsigned_hash_scalar: "list_all is_scalar s \<Longrightarrow> \<exists>u. unsigned_hash s = Inr u"
  using encode_utf8_list_all[of s] by (auto simp: unsigned_hash_def)

lemma emit_lines_ok:
  assumes "\<forall>k\<in>set ks. list_all is_scalar k \<and>
             (\<exists>v. map_of d (Some k) = Some v \<and> list_all is_scalar v)"
  shows "emit_lines d (map Some ks) out = (None, out @ map (written_line d) ks)"
  using assms
proof (induction ks arbitrary: out)
  case Nil
  then show ?case by simp
next
  case (Cons k ks)
  from Cons.prems obtain v where k: "list_all is_scalar k"
    and v: "map_of d (Some k) = Some v" "list_all is_scalar v" by auto
  from unsigned_hash_scalar[OF k] obtain u where u: "unsigned_hash k = Inr u" by blast
  let ?line = "text_line k (signed_hash u) (hex_hash u) v"
  from encode_utf8_list_all[OF scalar_text_line[OF k v(2)]]
  obtain bs where bs: "encode_utf8 ?line = Inr bs" by blast
  have w: "written_line d k = ?line" by (simp add: written_line_def u v)
  have "emit_lines d (map Some (k # ks)) out = emit_lines d (map Some ks) (out @ [?line])"
    by (simp add: u v bs)
  also have "\<dots> = (None, (out @ [?line]) @ map (written_line d) ks)"
    using Cons.prems by (intro Cons.IH) simp
  finally show ?case by (simp add: w)
qed

lemma last_record_for_key:
  assumes "Some k \<in> Key ` set things"
  shows "\<exists>t. t \<in> set things \<and> Key t = Some k \<and>
           t = last (filter (\<lambda>t. Key t = Some k) things) \<and>
           map_of (load_records things []) (Some k) = Some (findtext_default (Value t) [])"
proof -
  let ?f = "filter (\<lambda>t. Key t = Some k) things"
  from assms have ne: "?f \<noteq> []" by (auto simp: filter_empty_conv)
  then have "last ?f \<in> set ?f" by (rule last_in_set)
  then have m: "last ?f \<in> set things" "Key (last ?f) = Some k" by auto
  from ne obtain b bs where "?f = b # bs" by (cases ?f) auto
  then have "map_of (load_records things []) (Some k)
      = Some (findtext_default (Value (last ?f)) [])"
    by (simp add: map_of_load_records)
  with m show ?thesis by blast
qed

lemma unsigned_hash_DeviceA: "unsigned_hash [68, 101, 118, 105, 99, 101, 65] = Inr 376252038"
  by (simp add: unsigned_hash_def utf8_char_def zlib_crc32_bitwise crc32_ieee_def
      crc_shift_def crc_poly_def funpow8)

lemma unsigned_hash_A: "unsigned_hash [65] = Inr 3554254475"
  by (simp add: unsigned_hash_def utf8_char_def zlib_crc32_bitwise crc32_ieee_def
      crc_shift_def crc_poly_def funpow8)

lemma unsigned_hash_B: "unsigned_hash [66] = Inr 1255198513"
  by (simp add: unsigned_hash_def utf8_char_def zlib_crc32_bitwise crc32_ieee_def
      crc_shift_def crc_poly_def funpow8)

lemma fmt_DeviceA:
  "str_int (signed_hash 376252038) = lit ''376252038'' \<and> hex_hash 376252038 = lit ''0x166d2686''"
  by (simp add: signed_hash_def str_int_def str_nat.simps hex_hash_def hex_py_def hex_nat.simps
      hex_digit_def lit_def)

lemma fmt_A:
  "str_int (signed_hash 3554254475) = lit ''-740712821'' \<and> hex_hash 3554254475 = lit ''0xd3d99e8b''"
  by (simp add: signed_hash_def str_int_def str_nat.simps hex_hash_def hex_py_def hex_nat.simps
      hex_digit_def lit_def)

lemma fmt_B:
  "str_int (signed_hash 1255198513) = lit ''1255198513'' \<and> hex_hash 1255198513 = lit ''0x4ad0cf31''"
  by (simp add: signed_hash_def str_int_def str_nat.simps hex_hash_def hex_py_def hex_nat.simps
      hex_digit_def lit_def)

lemmas run_eval = run_generate_def findtext_default_def sorted_keys_def sorted_py_def
  text_line_def lit_def utf8_char_def str_int_def str_nat.simps

lemma run_DeviceA:
  "run_generate (XmlDocument [\<lparr>Key = Some (lit ''DeviceA''),
       Value = Some (lit ''<N:EN:Pipe Analyzer>'')\<rparr>]) True Map.empty
   = (Completed, [OutputTxt \<mapsto> text_line (lit ''DeviceA'') 376252038 (lit ''0x166d2686'')
       (lit ''<N:EN:Pipe Analyzer>'')])"
  using fmt_DeviceA by (simp add: run_eval unsigned_hash_DeviceA)

lemma run_B_A:
  "run_generate (XmlDocument [\<lparr>Key = Some (lit ''B''), Value = Some (lit ''Bee'')\<rparr>,
       \<lparr>Key = Some (lit ''A''), Value = None\<rparr>,
       \<lparr>Key = Some (lit ''B''), Value = Some (lit ''<N:EN:Bee>'')\<rparr>]) True Map.empty
   = (Completed, [OutputTxt \<mapsto>
        text_line (lit ''A'') (- 740712821) (lit ''0xd3d99e8b'') []
        @ text_line (lit ''B'') 1255198513 (lit ''0x4ad0cf31'') (lit ''<N:EN:Bee>'')])"
  using fmt_A fmt_B by (simp add: run_eval unsigned_hash_A unsigned_hash_B)

lemma unsigned_hash_empty: "unsigned_hash [] = Inr 0"
  by (simp add: unsigned_hash_def zlib_crc32_def)

lemma str_int_0: "str_int 0 = [48]"
  by (simp add: str_int_def str_nat.simps)

lemma hex_hash_0: "hex_hash 0 = [48, 120, 48]"
  by (simp add: hex_hash_def hex_py_def hex_nat.simps hex_digit_def lit_def)

lemma signed_hash_0: "signed_hash 0 = 0"
  by (simp add: signed_hash_def)

lemma run_empty_key: "run_generate (XmlDocument [\<lparr>Key = Some [], Value = Some (lit ''X'')\<rparr>]) True Map.empty
   = (Completed, [OutputTxt \<mapsto> [34, 34, 32, 48, 32, 48, 120, 48, 32, 34, 88, 34, 10]])"
  by (simp add: run_generate_def findtext_default_def sorted_keys_def sorted_py_def
      unsigned_hash_empty signed_hash_0 hex_hash_0 str_int_0 text_line_def lit_def utf8_char_def)

lemma run_missing_key: "run_generate (XmlDocument [\<lparr>Key = None, Value = Some (lit ''X'')\<rparr>]) True Map.empty
   = (Raised AttributeError, [OutputTxt \<mapsto> []])"
  by (simp add: run_generate_def findtext_default_def sorted_keys_def sorted_py_def)

lemma run_missing_key_among_others: "run_generate (XmlDocument [\<lparr>Key = None, Value = Some (lit ''X'')\<rparr>,
      \<lparr>Key = Some (lit ''A''), Value = None\<rparr>]) True Map.empty
   = (Raised TypeError, [OutputTxt \<mapsto> []])"
  by (simp add: run_generate_def findtext_default_def sorted_keys_def sorted_py_def)

lemma page_entry_empty_name: "page_entry \<lparr>PrefabName = Val [], PrefabHash = Val 1, Title = Val (lit ''X'')\<rparr> = Inr None"
  by (simp add: page_entry_def)

lemma page_entry_missing_name: "page_entry \<lparr>PrefabName = Missing, PrefabHash = Val 1, Title = Val (lit ''X'')\<rparr> = Inr None"
  by (simp add: page_entry_def)

text \<open>
  The record \<open>{"DeviceA": "<N:EN:Pipe Analyzer>"}\<close> is written with its raw display value,
  not with \<open>Pipe Analyzer\<close>.
\<close>

theorem text_emitter_raw_display_counterexample:
  "snd (run_generate (XmlDocument [\<lparr>Key = Some (lit ''DeviceA''),
       Value = Some (lit ''<N:EN:Pipe Analyzer>'')\<rparr>]) True Map.empty) OutputTxt
     = Some (text_line (lit ''DeviceA'') 376252038 (lit ''0x166d2686'')
          (lit ''<N:EN:Pipe Analyzer>'')) \<and>
   text_line (lit ''DeviceA'') 376252038 (lit ''0x166d2686'') (lit ''<N:EN:Pipe Analyzer>'')
     \<noteq> text_line (lit ''DeviceA'') 376252038 (lit ''0x166d2686'') (lit ''Pipe Analyzer'')"
  by (simp add: run_DeviceA) (simp add: text_line_def lit_def)

text \<open>
  C4. For a document whose records all have a \<open>Key\<close> and hold Unicode scalar values, the
  run completes and the file holds exactly one line per distinct identifier, in ascending
  identifier order, each laid out as the quoted identifier, the signed decimal hash, the
  lowercase \<open>0x\<close> hexadecimal hash and the quoted display value, separated by spaces and
  ended by a newline. The display value is the raw \<open>Value\<close> text of the last record with
  that key (the empty string when it has none); this script does not canonicalize it.
\<close>

theorem text_emitter_lines:
  assumes "\<forall>t\<in>set things. \<exists>k. Key t = Some k \<and> list_all is_scalar k \<and>
             list_all is_scalar (findtext_default (Value t) [])"
  shows "\<exists>ks. sorted ks \<and> distinct ks \<and> Some ` set ks = Key ` set things \<and>
     run_generate (XmlDocument things) True files =
       (Completed,
        files(OutputTxt \<mapsto> concat (map (written_line (load_records things [])) ks))) \<and>
     (\<forall>k\<in>set ks. \<exists>u. unsigned_hash k = Inr u \<and>
        written_line (load_records things []) k =
          text_line k (signed_hash u) (hex_hash u)
            (findtext_default (Value (last (filter (\<lambda>t. Key t = Some k) things))) []) \<and>
        hex_hash u = lit ''0x'' @ hex_nat (nat u) \<and>
        set (hex_nat (nat u)) \<subseteq> {48..57} \<union> {97..102})"
proof -
  define d where "d = load_records things []"
  define keys where "keys = map fst d"
  define ks where "ks = sorted_py (map the keys)"
  have keys: "set keys = Key ` set things"
    using keys_load_records[of things "[]"] by (simp add: keys_def d_def)
  have allsome: "\<forall>x\<in>set keys. \<exists>k. x = Some k"
    using assms keys by auto
  then have nonone: "None \<notin> set keys" by auto
  have dk: "distinct keys"
    unfolding keys_def d_def by (rule distinct_load_records) simp
  have inj: "inj_on the (set keys)"
  proof (rule inj_onI)
    fix x y assume x: "x \<in> set keys" and y: "y \<in> set keys" and e: "the x = the y"
    from allsome x obtain a where "x = Some a" by blast
    moreover from allsome y obtain b where "y = Some b" by blast
    ultimately show "x = y" using e by simp
  qed
  have s1: "sorted ks" by (simp add: ks_def sorted_py_def)
  have "distinct (map the keys)"
    by (rule iffD2[OF distinct_map]) (rule conjI[OF dk inj])
  then have s2: "distinct ks" by (simp add: ks_def sorted_py_def)
  have "Some ` the ` set keys = set keys"
    using allsome by (force simp: image_iff)
  moreover have "set ks = the ` set keys"
    by (simp add: ks_def sorted_py_def)
  ultimately have s3: "Some ` set ks = Key ` set things"
    using keys by (simp only:)
  have sk: "sorted_keys keys = Inr (map Some ks)"
    using nonone by (simp add: sorted_keys_def ks_def)
  have each: "\<forall>k\<in>set ks. list_all is_scalar k \<and>
      (\<exists>v. map_of d (Some k) = Some v \<and> list_all is_scalar v)"
  proof
    fix k assume "k \<in> set ks"
    then have "Some k \<in> Key ` set things" using s3 by blast
    from last_record_for_key[OF this] obtain t where t: "t \<in> set things" "Key t = Some k"
      "map_of d (Some k) = Some (findtext_default (Value t) [])"
      unfolding d_def by blast
    from assms t(1,2) have "list_all is_scalar k"
      and "list_all is_scalar (findtext_default (Value t) [])" by auto
    with t(3) show "list_all is_scalar k \<and>
      (\<exists>v. map_of d (Some k) = Some v \<and> list_all is_scalar v)" by simp
  qed
  have em: "emit_lines d (map Some ks) [] = (None, map (written_line d) ks)"
    using emit_lines_ok[OF each, of "[]"] by simp
  have "run_generate (XmlDocument things) True files =
       (case sorted_keys keys of
          Inl e \<Rightarrow> (Raised e, files(OutputTxt \<mapsto> []))
        | Inr ks \<Rightarrow>
           (case emit_lines d ks [] of
              (None, out) \<Rightarrow> (Completed, files(OutputTxt \<mapsto> concat out))
            | (Some e, out) \<Rightarrow> (Raised e, files(OutputTxt \<mapsto> concat out))))"
    unfolding run_generate_def Let_def keys_def d_def by simp
  then have run: "run_generate (XmlDocument things) True files =
       (Completed, files(OutputTxt \<mapsto> concat (map (written_line d) ks)))"
    by (simp add: sk em)
  have lines: "\<forall>k\<in>set ks. \<exists>u. unsigned_hash k = Inr u \<and>
        written_line d k =
          text_line k (signed_hash u) (hex_hash u)
            (findtext_default (Value (last (filter (\<lambda>t. Key t = Some k) things))) []) \<and>
        hex_hash u = lit ''0x'' @ hex_nat (nat u) \<and>
        set (hex_nat (nat u)) \<subseteq> {48..57} \<union> {97..102}"
  proof
    fix k assume k: "k \<in> set ks"
    then have "Some k \<in> Key ` set things" using s3 by blast
    from last_record_for_key[OF this]
    have m: "map_of d (Some k) =
        Some (findtext_default (Value (last (filter (\<lambda>t. Key t = Some k) things))) [])"
      unfolding d_def by auto
    from each k have "list_all is_scalar k" by blast
    from unsigned_hash_scalar[OF this] obtain u where u: "unsigned_hash k = Inr u" by blast
    then have w: "written_line d k = text_line k (signed_hash u) (hex_hash u)
            (findtext_default (Value (last (filter (\<lambda>t. Key t = Some k) things))) [])"
      by (simp add: written_line_def m)
    from unsigned_hash_range[OF u] have "0 \<le> u" by simp
    then have hx: "hex_hash u = lit ''0x'' @ hex_nat (nat u)"
      by (simp add: hex_hash_def hex_py_def)
    show "\<exists>u. unsigned_hash k = Inr u \<and>
        written_line d k =
          text_line k (signed_hash u) (hex_hash u)
            (findtext_default (Value (last (filter (\<lambda>t. Key t = Some k) things))) []) \<and>
        hex_hash u = lit ''0x'' @ hex_nat (nat u) \<and>
        set (hex_nat (nat u)) \<subseteq> {48..57} \<union> {97..102}"
      by (rule exI[of _ u]) (intro conjI u w hx set_hex_nat)
  qed
  from s1 s2 s3 run lines show ?thesis unfolding d_def by blast
qed

theorem text_emitter_lines_witness:
  "list_all is_scalar (lit ''<N:EN:Bee>'') \<and>
   fst (run_generate (XmlDocument [\<lparr>Key = Some (lit ''B''), Value = Some (lit ''Bee'')\<rparr>,
       \<lparr>Key = Some (lit ''A''), Value = None\<rparr>,
       \<lparr>Key = Some (lit ''B''), Value = Some (lit ''<N:EN:Bee>'')\<rparr>]) True Map.empty)
     = Completed \<and>
   snd (run_generate (XmlDocument [\<lparr>Key = Some (lit ''B''), Value = Some (lit ''Bee'')\<rparr>,
       \<lparr>Key = Some (lit ''A''), Value = None\<rparr>,
       \<lparr>Key = Some (lit ''B''), Value = Some (lit ''<N:EN:Bee>'')\<rparr>]) True Map.empty)
     OutputTxt
     = Some (text_line (lit ''A'') (- 740712821) (lit ''0xd3d99e8b'') []
        @ text_line (lit ''B'') 1255198513 (lit ''0x4ad0cf31'') (lit ''<N:EN:Bee>''))"
proof -
  let ?things = "[\<lparr>Key = Some (lit ''B''), Value = Some (lit ''Bee'')\<rparr>,
       \<lparr>Key = Some (lit ''A''), Value = None\<rparr>,
       \<lparr>Key = Some (lit ''B''), Value = Some (lit ''<N:EN:Bee>'')\<rparr>]"
  have pre: "\<forall>t\<in>set ?things. \<exists>k. Key t = Some k \<and> list_all is_scalar k \<and>
             list_all is_scalar (findtext_default (Value t) [])"
    by (simp add: findtext_default_def lit_def is_scalar_def)
  from text_emitter_lines[OF pre, of Map.empty]
  have a: "fst (run_generate (XmlDocument ?things) True Map.empty) = Completed"
    by auto
  have b: "list_all is_scalar (lit ''<N:EN:Bee>'')" by (simp add: lit_def is_scalar_def)
  from a b show ?thesis by (simp add: run_B_A)
qed

text \<open>
  C5. The loader of \<open>generate_hashes.py\<close> skips nothing: a record with an empty \<open>Key\<close> is
  hashed and written as the line \<open>"" 0 0x0 "X"\<close>, and a record without \<open>Key\<close> puts \<open>None\<close>
  into the dictionary, which raises \<open>AttributeError\<close> at \<open>encode\<close> (or \<open>TypeError\<close> in
  \<open>sorted\<close> when there are other keys) after the output file has been truncated. The loop
  of \<open>update_device_hashes.py\<close> does skip a page whose name is empty or absent.
\<close>

theorem empty_identifier_reaches_text_emitter:
  "run_generate (XmlDocument [\<lparr>Key = Some [], Value = Some (lit ''X'')\<rparr>]) True Map.empty
     = (Completed, [OutputTxt \<mapsto> [34, 34, 32, 48, 32, 48, 120, 48, 32, 34, 88, 34, 10]]) \<and>
   run_generate (XmlDocument [\<lparr>Key = None, Value = Some (lit ''X'')\<rparr>]) True Map.empty
     = (Raised AttributeError, [OutputTxt \<mapsto> []]) \<and>
   run_generate (XmlDocument [\<lparr>Key = None, Value = Some (lit ''X'')\<rparr>,
       \<lparr>Key = Some (lit ''A''), Value = None\<rparr>]) True Map.empty
     = (Raised TypeError, [OutputTxt \<mapsto> []]) \<and>
   page_entry \<lparr>PrefabName = Val [], PrefabHash = Val 1, Title = Val (lit ''X'')\<rparr> = Inr None \<and>
   page_entry \<lparr>PrefabName = Missing, PrefabHash = Val 1, Title = Val (lit ''X'')\<rparr> = Inr None"
  using run_empty_key run_missing_key run_missing_key_among_others page_entry_empty_name
    page_entry_missing_name
  by (intro conjI)

text \<open>
  C8. When the source is absent or cannot be parsed, each script stops before it opens its
  output: the file system after the run is the file system before it. \<open>generate_hashes.py\<close>
  prints a message and exits on a missing file and dies of the uncaught \<open>ParseError\<close> on a
  malformed one; \<open>update_device_hashes.py\<close> dies of the uncaught exception of \<open>open\<close>,
  \<open>json.load\<close> or \<open>data['pages']\<close>.
\<close>

theorem source_failure_writes_nothing:
  "run_generate XmlAbsent writable files = (Exited, files) \<and>
   run_generate XmlMalformed writable files = (Raised ParseError, files) \<and>
   fst (run_update output_path JsonAbsent writable files) = Raised FileNotFoundError \<and>
   snd (snd (run_update output_path JsonAbsent writable files)) = files \<and>
   fst (run_update output_path JsonMalformed writable files) = Raised JSONDecodeError \<and>
   snd (snd (run_update output_path JsonMalformed writable files)) = files \<and>
   fst (run_update output_path JsonNoPages writable files) = Raised KeyError \<and>
   snd (snd (run_update output_path JsonNoPages writable files)) = files"
  by (simp add: run_generate_def run_update_def)

subsection \<open>The tables of the code emitter\<close>


lemma build_tables_step:
  assumes "build_tables (p # ps) tabs = Inr T"
  shows "(page_entry p = Inr None \<and> kept_entries (p # ps) = kept_entries ps \<and>
            build_tables ps tabs = Inr T) \<or>
         (\<exists>n h dn. page_entry p = Inr (Some (n, h, dn)) \<and>
            kept_entries (p # ps) = (n, h, dn) # kept_entries ps \<and>
            build_tables ps (AList.update n (h, dn) (fst tabs), AList.update h dn (snd tabs))
              = Inr T)"
proof (cases "page_entry p")
  case (Inl e)
  with assms show ?thesis by simp
next
  case (Inr r)
  show ?thesis
  proof (cases r)
    case None
    with Inr assms show ?thesis by simp
  next
    case (Some e)
    obtain n h dn where "e = (n, h, dn)" by (cases e)
    with Some Inr assms show ?thesis by simp
  qed
qed

lemma build_tables_names:
  assumes "build_tables pages tabs = Inr T"
  shows "map_of (fst T) n =
    (case filter (\<lambda>e. fst e = n) (kept_entries pages) of
       [] \<Rightarrow> map_of (fst tabs) n
     | e # es \<Rightarrow> Some (snd (last (e # es))))"
  using assms
proof (induction pages arbitrary: tabs)
  case Nil
  then show ?case by simp
next
  case (Cons p ps)
  from build_tables_step[OF Cons.prems] show ?case
  proof (elim disjE conjE exE)
    assume "kept_entries (p # ps) = kept_entries ps" "build_tables ps tabs = Inr T"
    then show ?thesis using Cons.IH by simp
  next
    fix n' h dn
    assume k: "kept_entries (p # ps) = (n', h, dn) # kept_entries ps"
      and b: "build_tables ps (AList.update n' (h, dn) (fst tabs), AList.update h dn (snd tabs))
              = Inr T"
    note ih = Cons.IH[OF b]
    show ?thesis
    proof (cases "filter (\<lambda>e. fst e = n) (kept_entries ps)")
      case Nil
      then show ?thesis unfolding k using ih by (auto simp add: update_conv')
    next
      case (Cons c cs)
      then show ?thesis unfolding k using ih by simp
    qed
  qed
qed

lemma build_tables_hashes:
  assumes "build_tables pages tabs = Inr T"
  shows "map_of (snd T) h =
    (case filter (\<lambda>e. fst (snd e) = h) (kept_entries pages) of
       [] \<Rightarrow> map_of (snd tabs) h
     | e # es \<Rightarrow> Some (snd (snd (last (e # es)))))"
  using assms
proof (induction pages arbitrary: tabs)
  case Nil
  then show ?case by simp
next
  case (Cons p ps)
  from build_tables_step[OF Cons.prems] show ?case
  proof (elim disjE conjE exE)
    assume "kept_entries (p # ps) = kept_entries ps" "build_tables ps tabs = Inr T"
    then show ?thesis using Cons.IH by simp
  next
    fix n h' dn
    assume k: "kept_entries (p # ps) = (n, h', dn) # kept_entries ps"
      and b: "build_tables ps (AList.update n (h', dn) (fst tabs), AList.update h' dn (snd tabs))
              = Inr T"
    note ih = Cons.IH[OF b]
    show ?thesis
    proof (cases "filter (\<lambda>e. fst (snd e) = h) (kept_entries ps)")
      case Nil
      then show ?thesis unfolding k using ih by (auto simp add: update_conv')
    next
      case (Cons c cs)
      then show ?thesis unfolding k using ih by simp
    qed
  qed
qed

lemma build_tables_keys:
  assumes "build_tables pages tabs = Inr T"
  shows "fst ` set (fst T) = fst ` set (fst tabs) \<union> fst ` set (kept_entries pages) \<and>
         fst ` set (snd T) = fst ` set (snd tabs) \<union> (\<lambda>e. fst (snd e)) ` set (kept_entries pages)"
  using assms
proof (induction pages arbitrary: tabs)
  case Nil
  then show ?case by simp
next
  case (Cons p ps)
  from build_tables_step[OF Cons.prems] show ?case
  proof (elim disjE conjE exE)
    assume "kept_entries (p # ps) = kept_entries ps" "build_tables ps tabs = Inr T"
    then show ?thesis using Cons.IH by simp
  next
    fix n h dn
    assume k: "kept_entries (p # ps) = (n, h, dn) # kept_entries ps"
      and b: "build_tables ps (AList.update n (h, dn) (fst tabs), AList.update h dn (snd tabs))
              = Inr T"
    from Cons.IH[OF b] show ?thesis unfolding k by (auto simp: dom_update)
  qed
qed

lemma build_tables_distinct:
  assumes "build_tables pages tabs = Inr T"
    and "distinct (map fst (fst tabs))" and "distinct (map fst (snd tabs))"
  shows "distinct (map fst (fst T)) \<and> distinct (map fst (snd T))"
  using assms
proof (induction pages arbitrary: tabs)
  case Nil
  then show ?case by simp
next
  case (Cons p ps)
  from build_tables_step[OF Cons.prems(1)] show ?case
  proof (elim disjE conjE exE)
    assume "build_tables ps tabs = Inr T"
    then show ?thesis using Cons.IH Cons.prems by blast
  next
    fix n h dn
    assume b: "build_tables ps (AList.update n (h, dn) (fst tabs), AList.update h dn (snd tabs))
              = Inr T"
    show ?thesis
      by (rule Cons.IH[OF b]) (simp_all add: distinct_update Cons.prems)
  qed
qed

lemma kept_entries_page:
  "e \<in> set (kept_entries pages) \<Longrightarrow> \<exists>p\<in>set pages. page_entry p = Inr (Some e)"
proof (induction pages)
  case Nil
  then show ?case by simp
next
  case (Cons p ps)
  then show ?case
    by (cases "page_entry p") (auto split: option.splits)
qed

lemma name_lines_rows:
  assumes "set ns \<subseteq> fst ` set dm"
  shows "\<exists>rows. name_lines dm ns = Inr (map (\<lambda>(n, h). name_line n h) rows) \<and>
           map fst rows = ns \<and>
           (\<forall>r\<in>set rows. \<exists>dn. map_of dm (fst r) = Some (snd r, dn))"
  using assms
proof (induction ns)
  case Nil
  then show ?case by simp
next
  case (Cons n ns)
  then obtain rows where rows: "name_lines dm ns = Inr (map (\<lambda>(n, h). name_line n h) rows)"
    "map fst rows = ns" "\<forall>r\<in>set rows. \<exists>dn. map_of dm (fst r) = Some (snd r, dn)"
    by auto
  from Cons.prems have "n \<in> fst ` set dm" by simp
  then obtain v where "map_of dm n = Some v"
    by (metis domD dom_map_of_conv_image_fst)
  then obtain h dn where v: "map_of dm n = Some (h, dn)" by (cases v) simp
  let ?rows = "(n, h) # rows"
  show ?case
  proof (rule exI[of _ ?rows], intro conjI)
    show "name_lines dm (n # ns) = Inr (map (\<lambda>(n, h). name_line n h) ?rows)"
      by (simp add: v rows(1))
    show "map fst ?rows = n # ns" by (simp add: rows(2))
    show "\<forall>r\<in>set ?rows. \<exists>dn. map_of dm (fst r) = Some (snd r, dn)"
      using v rows(3) by simp
  qed
qed

lemma hash_lines_rows:
  assumes "set hs \<subseteq> fst ` set hn"
  shows "\<exists>rows. hash_lines hn hs = Inr (map (\<lambda>(h, dn). hash_line h dn) rows) \<and>
           map fst rows = hs \<and>
           (\<forall>r\<in>set rows. map_of hn (fst r) = Some (snd r))"
  using assms
proof (induction hs)
  case Nil
  then show ?case by simp
next
  case (Cons h hs)
  then obtain rows where rows: "hash_lines hn hs = Inr (map (\<lambda>(h, dn). hash_line h dn) rows)"
    "map fst rows = hs" "\<forall>r\<in>set rows. map_of hn (fst r) = Some (snd r)"
    by auto
  from Cons.prems have "h \<in> fst ` set hn" by simp
  then obtain dn where v: "map_of hn h = Some dn"
    by (metis domD dom_map_of_conv_image_fst)
  let ?rows = "(h, dn) # rows"
  show ?case
  proof (rule exI[of _ ?rows], intro conjI)
    show "hash_lines hn (h # hs) = Inr (map (\<lambda>(h, dn). hash_line h dn) ?rows)"
      by (simp add: v rows(1))
    show "map fst ?rows = h # hs" by (simp add: rows(2))
    show "\<forall>r\<in>set ?rows. map_of hn (fst r) = Some (snd r)"
      using v rows(3) by simp
  qed
qed

lemma rust_code_rows:
  "\<exists>nrows hrows.
     rust_code (dm, hn) =
       Inr (rust_header @ map (\<lambda>(n, h). name_line n h) nrows @ rust_middle
            @ map (\<lambda>(h, dn). hash_line h dn) hrows @ rust_footer) \<and>
     map fst nrows = sorted_py (map fst dm) \<and>
     (\<forall>r\<in>set nrows. \<exists>dn. map_of dm (fst r) = Some (snd r, dn)) \<and>
     map fst hrows = sorted_py (map fst hn) \<and>
     (\<forall>r\<in>set hrows. map_of hn (fst r) = Some (snd r))"
proof -
  have "set (sorted_py (map fst dm)) \<subseteq> fst ` set dm" by (simp add: sorted_py_def)
  from name_lines_rows[OF this] obtain nrows where
    n: "name_lines dm (sorted_py (map fst dm)) = Inr (map (\<lambda>(n, h). name_line n h) nrows)"
      "map fst nrows = sorted_py (map fst dm)"
      "\<forall>r\<in>set nrows. \<exists>dn. map_of dm (fst r) = Some (snd r, dn)"
    by blast
  have "set (sorted_py (map fst hn)) \<subseteq> fst ` set hn" by (simp add: sorted_py_def)
  from hash_lines_rows[OF this] obtain hrows where
    h: "hash_lines hn (sorted_py (map fst hn)) = Inr (map (\<lambda>(h, dn). hash_line h dn) hrows)"
      "map fst hrows = sorted_py (map fst hn)"
      "\<forall>r\<in>set hrows. map_of hn (fst r) = Some (snd r)"
    by blast
  show ?thesis
  proof (rule exI[of _ nrows], rule exI[of _ hrows], intro conjI)
    show "rust_code (dm, hn) =
       Inr (rust_header @ map (\<lambda>(n, h). name_line n h) nrows @ rust_middle
            @ map (\<lambda>(h, dn). hash_line h dn) hrows @ rust_footer)"
      by (simp add: rust_code_def n(1) h(1))
  qed (use n(2,3) h(2,3) in simp_all)
qed








lemma run_update_unencodable:
  assumes "build_tables pages ([], []) = Inr (dm, hn)"
    and "rust_code (dm, hn) = Inr code"
    and "encode_utf8 (concat code) = Inl e"
  shows "run_update output_path (JsonDocument pages) True files =
    (Raised e,
     [lit ''Loading Stationpedia.json...'', found_line dm,
      lit ''Writing to '' @ output_path @ lit ''...''],
     files(DeviceHashesRs \<mapsto> []))"
  unfolding run_update_def Let_def json_source.case assms sum.case by simp

lemma device_map_entry:
  assumes "build_tables pages ([], []) = Inr (dm, hn)" and "map_of dm n = Some (h, dn)"
  shows "(n, h, dn) \<in> set (kept_entries pages) \<and>
         (n, h, dn) = last (filter (\<lambda>e. fst e = n) (kept_entries pages))"
proof -
  let ?f = "filter (\<lambda>e. fst e = n) (kept_entries pages)"
  note m = build_tables_names[OF assms(1), of n]
  have ne: "?f \<noteq> []"
  proof
    assume "?f = []"
    with m assms(2) show False by simp
  qed
  then obtain e es where f: "?f = e # es" by (cases ?f) auto
  with m assms(2) have s: "snd (last ?f) = (h, dn)" by simp
  from ne have "last ?f \<in> set ?f" by (rule last_in_set)
  then have "fst (last ?f) = n" and k: "last ?f \<in> set (kept_entries pages)" by auto
  with s have "last ?f = (n, h, dn)" by (cases "last ?f") auto
  with k show ?thesis by simp
qed

lemma hash_map_entry:
  assumes "build_tables pages ([], []) = Inr (dm, hn)" and "map_of hn h = Some dn"
  shows "\<exists>n. (n, h, dn) \<in> set (kept_entries pages) \<and>
         (n, h, dn) = last (filter (\<lambda>e. fst (snd e) = h) (kept_entries pages))"
proof -
  let ?f = "filter (\<lambda>e. fst (snd e) = h) (kept_entries pages)"
  note m = build_tables_hashes[OF assms(1), of h]
  have ne: "?f \<noteq> []"
  proof
    assume "?f = []"
    with m assms(2) show False by simp
  qed
  then obtain e es where f: "?f = e # es" by (cases ?f) auto
  with m assms(2) have s: "snd (snd (last ?f)) = dn" by simp
  from ne have "last ?f \<in> set ?f" by (rule last_in_set)
  then have "fst (snd (last ?f)) = h" and k: "last ?f \<in> set (kept_entries pages)" by auto
  with s have "last ?f = (fst (last ?f), h, dn)" by (cases "last ?f") auto
  with k show ?thesis by metis
qed

lemma kept_entry_fields:
  assumes "(n, h, dn) \<in> set (kept_entries pages)"
  shows "\<exists>p\<in>set pages. PrefabName p = Val n \<and> PrefabHash p = Val h \<and> n \<noteq> []"
proof -
  from kept_entries_page[OF assms] obtain p where p: "p \<in> set pages"
    "page_entry p = Inr (Some (n, h, dn))" by blast
  from page_entry_SomeD[OF p(2)] p(1) show ?thesis by blast
qed

lemma tables_rows:
  assumes bt: "build_tables pages ([], []) = Inr (dm, hn)"
  shows "\<exists>nrows hrows.
     rust_code (dm, hn) =
       Inr (rust_header @ map (\<lambda>(n, h). name_line n h) nrows @ rust_middle
            @ map (\<lambda>(h, dn). hash_line h dn) hrows @ rust_footer) \<and>
     sorted (map fst nrows) \<and> distinct (map fst nrows) \<and>
     set (map fst nrows) = fst ` set (kept_entries pages) \<and>
     (\<forall>r\<in>set nrows. \<exists>dn. map_of dm (fst r) = Some (snd r, dn)) \<and>
     sorted (map fst hrows) \<and> distinct (map fst hrows) \<and>
     set (map fst hrows) = (\<lambda>e. fst (snd e)) ` set (kept_entries pages) \<and>
     (\<forall>r\<in>set hrows. map_of hn (fst r) = Some (snd r)) \<and>
     length nrows = length dm \<and> length hrows = length hn \<and>
     (\<forall>n h dn. map_of dm n = Some (h, dn) \<longrightarrow>
        (n, h) \<in> set nrows \<and> (\<exists>d. (h, d) \<in> set hrows))"
proof -
  from rust_code_rows[of dm hn] obtain nrows hrows where r:
    "rust_code (dm, hn) =
       Inr (rust_header @ map (\<lambda>(n, h). name_line n h) nrows @ rust_middle
            @ map (\<lambda>(h, dn). hash_line h dn) hrows @ rust_footer)"
    "map fst nrows = sorted_py (map fst dm)"
    "\<forall>r\<in>set nrows. \<exists>dn. map_of dm (fst r) = Some (snd r, dn)"
    "map fst hrows = sorted_py (map fst hn)"
    "\<forall>r\<in>set hrows. map_of hn (fst r) = Some (snd r)"
    by blast
  from build_tables_distinct[OF bt] have d: "distinct (map fst dm)" "distinct (map fst hn)"
    by simp_all
  from build_tables_keys[OF bt] have k: "fst ` set dm = fst ` set (kept_entries pages)"
    "fst ` set hn = (\<lambda>e. fst (snd e)) ` set (kept_entries pages)" by simp_all
  show ?thesis
  proof (rule exI[of _ nrows], rule exI[of _ hrows], intro conjI)
    show "sorted (map fst nrows)" unfolding r(2) sorted_py_def by simp
    show "distinct (map fst nrows)" unfolding r(2) sorted_py_def using d(1) by simp
    show "set (map fst nrows) = fst ` set (kept_entries pages)"
      unfolding r(2) sorted_py_def using k(1) by simp
    show "sorted (map fst hrows)" unfolding r(4) sorted_py_def by simp
    show "distinct (map fst hrows)" unfolding r(4) sorted_py_def using d(2) by simp
    show "set (map fst hrows) = (\<lambda>e. fst (snd e)) ` set (kept_entries pages)"
      unfolding r(4) sorted_py_def using k(2) by simp
    have "length (map fst nrows) = length dm" unfolding r(2) sorted_py_def by simp
    then show "length nrows = length dm" by simp
    have "length (map fst hrows) = length hn" unfolding r(4) sorted_py_def by simp
    then show "length hrows = length hn" by simp
    show "\<forall>n h dn. map_of dm n = Some (h, dn) \<longrightarrow>
        (n, h) \<in> set nrows \<and> (\<exists>d. (h, d) \<in> set hrows)"
    proof (intro allI impI)
      fix n h dn assume m: "map_of dm n = Some (h, dn)"
      have e: "(n, h, dn) \<in> set (kept_entries pages)"
        by (rule conjunct1[OF device_map_entry[OF bt m]])
      then have "n \<in> fst ` set (kept_entries pages)" by force
      then have "n \<in> set (map fst nrows)"
        unfolding r(2) sorted_py_def using k(1) by simp
      then obtain x where x: "x \<in> set nrows" "fst x = n" by auto
      with r(3) obtain d where "map_of dm n = Some (snd x, d)" by blast
      with m have "snd x = h" by simp
      with x(2) have "x = (n, h)" by (simp add: prod_eq_iff)
      with x(1) have a: "(n, h) \<in> set nrows" by simp
      from e have "h \<in> (\<lambda>e. fst (snd e)) ` set (kept_entries pages)" by force
      then have "h \<in> set (map fst hrows)"
        unfolding r(4) sorted_py_def using k(2) by simp
      then obtain y where y: "y \<in> set hrows" "fst y = h" by auto
      then have "y = (h, snd y)" by (simp add: prod_eq_iff)
      with y(1) have "(h, snd y) \<in> set hrows" by simp
      with a show "(n, h) \<in> set nrows \<and> (\<exists>d. (h, d) \<in> set hrows)" by blast
    qed
  qed (use r(1,3,5) in simp_all)
qed

lemmas page_eval = page_entry_def display_name_def clean_title_def strip_py_def is_space_def
  lit_def

lemma tables_B_A:
  "build_tables
     [\<lparr>PrefabName = Val (lit ''B''), PrefabHash = Val 1, Title = Val (lit ''Bee'')\<rparr>,
      \<lparr>PrefabName = Val (lit ''A''), PrefabHash = Val 1, Title = Val (lit ''Ay'')\<rparr>] ([], [])
   = Inr ([(lit ''B'', 1, lit ''Bee''), (lit ''A'', 1, lit ''Ay'')], [(1, lit ''Ay'')])"
  by (simp add: page_eval)

lemma rust_code_B_A:
  "rust_code ([(lit ''B'', 1, lit ''Bee''), (lit ''A'', 1, lit ''Ay'')], [(1, lit ''Ay'')])
   = Inr (rust_header @ [name_line (lit ''A'') 1, name_line (lit ''B'') 1] @ rust_middle
          @ [hash_line 1 (lit ''Ay'')] @ rust_footer)"
  by (simp add: rust_code_def sorted_py_def lit_def)







lemma tables_A_5:
  "build_tables [\<lparr>PrefabName = Val (lit ''A''), PrefabHash = Val 5, Title = Missing\<rparr>] ([], [])
   = Inr ([(lit ''A'', 5, lit ''A'')], [(5, lit ''A'')])"
  by (simp add: page_eval)

text \<open>
  Two pages with the same hash, \<open>B\<close> (title \<open>Bee\<close>) before \<open>A\<close> (title \<open>Ay\<close>): the entry of
  \<open>HASH_TO_DISPLAY_NAME\<close> holds \<open>Ay\<close>, the name of the page that comes last in the input,
  although \<open>B\<close> is the later identifier in sort order.
\<close>

theorem later_input_wins_counterexample:
  "build_tables
     [\<lparr>PrefabName = Val (lit ''B''), PrefabHash = Val 1, Title = Val (lit ''Bee'')\<rparr>,
      \<lparr>PrefabName = Val (lit ''A''), PrefabHash = Val 1, Title = Val (lit ''Ay'')\<rparr>] ([], [])
     = Inr ([(lit ''B'', 1, lit ''Bee''), (lit ''A'', 1, lit ''Ay'')], [(1, lit ''Ay'')]) \<and>
   rust_code ([(lit ''B'', 1, lit ''Bee''), (lit ''A'', 1, lit ''Ay'')], [(1, lit ''Ay'')])
     = Inr (rust_header @ [name_line (lit ''A'') 1, name_line (lit ''B'') 1] @ rust_middle
          @ [hash_line 1 (lit ''Ay'')] @ rust_footer) \<and>
   lit ''A'' < lit ''B'' \<and> lit ''Ay'' \<noteq> lit ''Bee''"
  using tables_B_A rust_code_B_A by (simp add: lit_def)

text \<open>
  C7. Every identifier of the table appears exactly once in \<open>NAME_TO_HASH\<close>, whose rows
  are sorted by identifier, and every hash value exactly once in \<open>HASH_TO_DISPLAY_NAME\<close>,
  whose rows are sorted by hash. The display name stored for a hash is the one of the last
  kept page, in input order, that carries this hash: \<open>hash_to_name\<close> is filled while the
  pages are read, before anything is sorted.
\<close>

theorem last_input_page_wins:
  assumes "build_tables pages ([], []) = Inr (dm, hn)"
  shows "\<exists>nrows hrows.
     rust_code (dm, hn) =
       Inr (rust_header @ map (\<lambda>(n, h). name_line n h) nrows @ rust_middle
            @ map (\<lambda>(h, dn). hash_line h dn) hrows @ rust_footer) \<and>
     sorted (map fst nrows) \<and> distinct (map fst nrows) \<and>
     set (map fst nrows) = fst ` set (kept_entries pages) \<and>
     sorted (map fst hrows) \<and> distinct (map fst hrows) \<and>
     set (map fst hrows) = (\<lambda>e. fst (snd e)) ` set (kept_entries pages) \<and>
     (\<forall>r\<in>set hrows.
        snd r = snd (snd (last (filter (\<lambda>e. fst (snd e) = fst r) (kept_entries pages)))))"
proof -
  from tables_rows[OF assms] obtain nrows hrows where r:
    "rust_code (dm, hn) =
       Inr (rust_header @ map (\<lambda>(n, h). name_line n h) nrows @ rust_middle
            @ map (\<lambda>(h, dn). hash_line h dn) hrows @ rust_footer)"
    "sorted (map fst nrows)" "distinct (map fst nrows)"
    "set (map fst nrows) = fst ` set (kept_entries pages)"
    "sorted (map fst hrows)" "distinct (map fst hrows)"
    "set (map fst hrows) = (\<lambda>e. fst (snd e)) ` set (kept_entries pages)"
    "\<forall>r\<in>set hrows. map_of hn (fst r) = Some (snd r)"
    by blast
  have "\<forall>r\<in>set hrows.
        snd r = snd (snd (last (filter (\<lambda>e. fst (snd e) = fst r) (kept_entries pages))))"
  proof
    fix x assume "x \<in> set hrows"
    with r(8) have "map_of hn (fst x) = Some (snd x)" by blast
    from hash_map_entry[OF assms this] obtain n where
      "(n, fst x, snd x) = last (filter (\<lambda>e. fst (snd e) = fst x) (kept_entries pages))"
      by blast
    then show "snd x = snd (snd (last (filter (\<lambda>e. fst (snd e) = fst x) (kept_entries pages))))"
      by (metis snd_conv)
  qed
  with r(1-7) show ?thesis
    by (intro exI[of _ nrows] exI[of _ hrows] conjI)
qed

theorem last_input_page_wins_witness:
  "(\<exists>nrows hrows.
     rust_code ([(lit ''B'', 1, lit ''Bee''), (lit ''A'', 1, lit ''Ay'')], [(1, lit ''Ay'')]) =
       Inr (rust_header @ map (\<lambda>(n, h). name_line n h) nrows @ rust_middle
            @ map (\<lambda>(h, dn). hash_line h dn) hrows @ rust_footer) \<and>
     distinct (map fst nrows) \<and> distinct (map fst hrows)) \<and>
   kept_entries
     [\<lparr>PrefabName = Val (lit ''B''), PrefabHash = Val 1, Title = Val (lit ''Bee'')\<rparr>,
      \<lparr>PrefabName = Val (lit ''A''), PrefabHash = Val 1, Title = Val (lit ''Ay'')\<rparr>]
     = [(lit ''B'', 1, lit ''Bee''), (lit ''A'', 1, lit ''Ay'')] \<and>
   snd (snd (last (filter (\<lambda>e. fst (snd e) = 1)
     [(lit ''B'', 1::int, lit ''Bee''), (lit ''A'', 1, lit ''Ay'')]))) = lit ''Ay'' \<and>
   map_of [(1::int, lit ''Ay'')] 1 = Some (lit ''Ay'')"
proof -
  have k: "kept_entries
     [\<lparr>PrefabName = Val (lit ''B''), PrefabHash = Val 1, Title = Val (lit ''Bee'')\<rparr>,
      \<lparr>PrefabName = Val (lit ''A''), PrefabHash = Val 1, Title = Val (lit ''Ay'')\<rparr>]
     = [(lit ''B'', 1, lit ''Bee''), (lit ''A'', 1, lit ''Ay'')]"
    by (simp add: page_eval)
  from last_input_page_wins[OF tables_B_A]
  have "\<exists>nrows hrows.
     rust_code ([(lit ''B'', 1, lit ''Bee''), (lit ''A'', 1, lit ''Ay'')], [(1, lit ''Ay'')]) =
       Inr (rust_header @ map (\<lambda>(n, h). name_line n h) nrows @ rust_middle
            @ map (\<lambda>(h, dn). hash_line h dn) hrows @ rust_footer) \<and>
     distinct (map fst nrows) \<and> distinct (map fst hrows)"
    by blast
  with k show ?thesis by simp
qed




lemma tables_surrogate:
  "build_tables [\<lparr>PrefabName = Val (lit ''A''), PrefabHash = Val 1, Title = Val [55296]\<rparr>]
     ([], []) = Inr ([(lit ''A'', 1, [55296])], [(1, [55296])])"
  by (simp add: page_eval)

lemma run_update_surrogate_title:
  "run_update output_path (JsonDocument
     [\<lparr>PrefabName = Val (lit ''A''), PrefabHash = Val 1, Title = Val [55296]\<rparr>]) True files
   = (Raised UnicodeEncodeError,
      [lit ''Loading Stationpedia.json...'', found_line [(lit ''A'', 1, [55296])],
       lit ''Writing to '' @ output_path @ lit ''...''],
      files(DeviceHashesRs \<mapsto> []))"
proof -
  have c: "rust_code ([(lit ''A'', 1, [55296])], [(1, [55296])])
     = Inr (rust_header @ [name_line (lit ''A'') 1] @ rust_middle
            @ [hash_line 1 [55296]] @ rust_footer)"
    by (simp add: rust_code_def sorted_py_def lit_def)
  have e: "encode_utf8 (concat (rust_header @ [name_line (lit ''A'') 1] @ rust_middle
            @ [hash_line 1 [55296]] @ rust_footer)) = Inl UnicodeEncodeError"
    by (simp add: rust_header_def rust_middle_def rust_footer_def name_line_def hash_line_def
        escape_display_def str_int_def str_nat.simps lit_def utf8_char_def)
  from run_update_unencodable[OF tables_surrogate c e] show ?thesis .
qed




text \<open>
  C10. In the code artifact the hash of every row of \<open>NAME_TO_HASH\<close> is the \<open>PrefabHash\<close>
  field of a page with that \<open>PrefabName\<close> (the last kept one), and every key of
  \<open>HASH_TO_DISPLAY_NAME\<close> is the \<open>PrefabHash\<close> field of a page: no checksum is computed and
  none is compared. A page \<open>A\<close> with hash 5 is emitted as \<open>"A" => 5\<close>, while the CRC-32 of
  \<open>A\<close> read as a signed number is \<open>-740712821\<close>.
\<close>

theorem code_artifact_hash_is_source_field:
  assumes "build_tables pages ([], []) = Inr (dm, hn)"
  shows "\<exists>nrows hrows.
     rust_code (dm, hn) =
       Inr (rust_header @ map (\<lambda>(n, h). name_line n h) nrows @ rust_middle
            @ map (\<lambda>(h, dn). hash_line h dn) hrows @ rust_footer) \<and>
     (\<forall>r\<in>set nrows. \<exists>p\<in>set pages. PrefabName p = Val (fst r) \<and> PrefabHash p = Val (snd r)) \<and>
     (\<forall>r\<in>set nrows. \<exists>dn.
        (fst r, snd r, dn) = last (filter (\<lambda>e. fst e = fst r) (kept_entries pages))) \<and>
     (\<forall>r\<in>set hrows. \<exists>p\<in>set pages. PrefabHash p = Val (fst r))"
proof -
  from tables_rows[OF assms] obtain nrows hrows where r:
    "rust_code (dm, hn) =
       Inr (rust_header @ map (\<lambda>(n, h). name_line n h) nrows @ rust_middle
            @ map (\<lambda>(h, dn). hash_line h dn) hrows @ rust_footer)"
    "\<forall>r\<in>set nrows. \<exists>dn. map_of dm (fst r) = Some (snd r, dn)"
    "\<forall>r\<in>set hrows. map_of hn (fst r) = Some (snd r)"
    by blast
  have n1: "\<forall>r\<in>set nrows. \<exists>p\<in>set pages. PrefabName p = Val (fst r) \<and> PrefabHash p = Val (snd r)"
  proof
    fix x assume "x \<in> set nrows"
    with r(2) obtain dn where "map_of dm (fst x) = Some (snd x, dn)" by blast
    from conjunct1[OF device_map_entry[OF assms this]]
    have "(fst x, snd x, dn) \<in> set (kept_entries pages)" .
    from kept_entry_fields[OF this]
    show "\<exists>p\<in>set pages. PrefabName p = Val (fst x) \<and> PrefabHash p = Val (snd x)" by blast
  qed
  have n2: "\<forall>r\<in>set nrows. \<exists>dn.
        (fst r, snd r, dn) = last (filter (\<lambda>e. fst e = fst r) (kept_entries pages))"
  proof
    fix x assume "x \<in> set nrows"
    with r(2) obtain dn where "map_of dm (fst x) = Some (snd x, dn)" by blast
    from device_map_entry[OF assms this]
    show "\<exists>dn. (fst x, snd x, dn) = last (filter (\<lambda>e. fst e = fst x) (kept_entries pages))"
      by blast
  qed
  have h1: "\<forall>r\<in>set hrows. \<exists>p\<in>set pages. PrefabHash p = Val (fst r)"
  proof
    fix x assume "x \<in> set hrows"
    with r(3) have "map_of hn (fst x) = Some (snd x)" by blast
    from hash_map_entry[OF assms this] obtain n where
      "(n, fst x, snd x) \<in> set (kept_entries pages)" by blast
    from kept_entry_fields[OF this]
    show "\<exists>p\<in>set pages. PrefabHash p = Val (fst x)" by blast
  qed
  show ?thesis
    by (rule exI[of _ nrows], rule exI[of _ hrows]) (intro conjI r(1) n1 n2 h1)
qed

theorem code_artifact_hash_is_source_field_witness:
  "build_tables [\<lparr>PrefabName = Val (lit ''A''), PrefabHash = Val 5, Title = Missing\<rparr>] ([], [])
     = Inr ([(lit ''A'', 5, lit ''A'')], [(5, lit ''A'')]) \<and>
   rust_code ([(lit ''A'', 5, lit ''A'')], [(5, lit ''A'')])
     = Inr (rust_header @ [name_line (lit ''A'') 5] @ rust_middle
            @ [hash_line 5 (lit ''A'')] @ rust_footer) \<and>
   (\<exists>nrows hrows. rust_code ([(lit ''A'', 5, lit ''A'')], [(5, lit ''A'')]) =
       Inr (rust_header @ map (\<lambda>(n, h). name_line n h) nrows @ rust_middle
            @ map (\<lambda>(h, dn). hash_line h dn) hrows @ rust_footer)) \<and>
   unsigned_hash (lit ''A'') = Inr 3554254475 \<and>
   signed_hash 3554254475 = - 740712821"
proof -
  from code_artifact_hash_is_source_field[OF tables_A_5]
  have a: "\<exists>nrows hrows. rust_code ([(lit ''A'', 5, lit ''A'')], [(5, lit ''A'')]) =
       Inr (rust_header @ map (\<lambda>(n, h). name_line n h) nrows @ rust_middle
            @ map (\<lambda>(h, dn). hash_line h dn) hrows @ rust_footer)"
    by blast
  have b: "rust_code ([(lit ''A'', 5, lit ''A'')], [(5, lit ''A'')])
     = Inr (rust_header @ [name_line (lit ''A'') 5] @ rust_middle
            @ [hash_line 5 (lit ''A'')] @ rust_footer)"
    by (simp add: rust_code_def sorted_py_def lit_def)
  have c: "unsigned_hash (lit ''A'') = Inr 3554254475"
    using unsigned_hash_A by (simp add: lit_def)
  have d: "signed_hash 3554254475 = - 740712821" by (simp add: signed_hash_def)
  from a b c d tables_A_5 show ?thesis by (intro conjI)
qed

end
